theory Spec2Isabelle
  imports Complex_Main "HOL-Library.Sublist" "HOL-Library.Log_Nat"
begin

text \<open>
  The ISBN scanner of the library catalogue: the string functions that clean and accept an
  ISBN, the stability gate that confirms a code read twice in a row, the conditioning of a
  video frame before detection (crop and binarization, in double-precision arithmetic), the
  acquisition of the camera stream, and the life cycle of the scanner component on the
  event loop. Each definition embeds the source function whose text stands before it.
\<close>

section \<open>ISBN strings: \<open>norm\<close>, \<open>cleanISBN\<close>, \<open>isValidISBN\<close>\<close>

text \<open>
  A JavaScript string is modelled as a \<^typ>\<open>string\<close>, one \<^typ>\<open>char\<close> per code unit
  (code units up to 255). Code units above 255 are not represented; \<open>cleanISBN\<close> deletes
  every code unit that is not one of \<open>0-9\<close>, \<open>X\<close>, \<open>x\<close>, so they would be deleted as well.

  \<^verbatim>\<open>function norm(s){ return (s||"").toString().trim(); }\<close>

  On a string argument \<open>(s||"").toString()\<close> is the string itself, and \<open>trim\<close> removes
  white space and line terminators at both ends.
\<close>

definition isWhiteSpace :: "char \<Rightarrow> bool" where
  "isWhiteSpace c = ((of_char c :: nat) \<in> {9, 10, 11, 12, 13, 32, 160})"

definition trim :: "string \<Rightarrow> string" where
  "trim s = rev (dropWhile isWhiteSpace (rev (dropWhile isWhiteSpace s)))"

definition norm :: "string \<Rightarrow> string" where
  "norm s = trim s"

text \<open>
  \<^verbatim>\<open>
  function cleanISBN(raw){
    const s = norm(raw).replace(/[^0-9Xx]/g,"").toUpperCase();
    return s.length>13 ? s.slice(0,13) : s;
  }
  function isValidISBN(s){
    const x = cleanISBN(s);
    return x.length===10 || x.length===13;
  }\<close>

  \<open>replace(/[^0-9Xx]/g,"")\<close> keeps exactly the characters of the class \<open>[0-9Xx]\<close>.
  \<open>toUpperCase\<close> is modelled on the ASCII letters, the only letters it can meet here
  (and, below, the only ones a case-insensitive match against an ASCII pattern can equate).
\<close>

definition isDigit :: "char \<Rightarrow> bool" where
  "isDigit c = (c \<in> set ''0123456789'')"

definition inClass09Xx :: "char \<Rightarrow> bool" where
  "inClass09Xx c = (isDigit c \<or> c = CHR ''X'' \<or> c = CHR ''x'')"

definition toUpperChar :: "char \<Rightarrow> char" where
  "toUpperChar c =
     (case map_of (zip ''abcdefghijklmnopqrstuvwxyz'' ''ABCDEFGHIJKLMNOPQRSTUVWXYZ'') c of
        Some u \<Rightarrow> u
      | None \<Rightarrow> c)"

definition toUpperCase :: "string \<Rightarrow> string" where
  "toUpperCase s = map toUpperChar s"

definition cleanISBN :: "string \<Rightarrow> string" where
  "cleanISBN raw =
     (let s = toUpperCase (filter inClass09Xx (norm raw))
      in if length s > 13 then take 13 s else s)"

definition isValidISBN :: "string \<Rightarrow> bool" where
  "isValidISBN s = (let x = cleanISBN s in length x = 10 \<or> length x = 13)"

text \<open>
  The validity predicate as the specification words it: the normalized string has length
  10 or 13 and consists of digits, except that its first or its last character (one of
  them, not both) may be an \<open>X\<close>.
\<close>

definition spec_isValid :: "string \<Rightarrow> bool" where
  "spec_isValid s =
     (let x = cleanISBN s
      in (length x = 10 \<or> length x = 13) \<and>
         (list_all isDigit x \<or>
          (hd x = CHR ''X'' \<and> list_all isDigit (tl x)) \<or>
          (last x = CHR ''X'' \<and> list_all isDigit (butlast x))))"

definition isbnChar :: "char \<Rightarrow> bool" where
  "isbnChar c = (isDigit c \<or> c = CHR ''X'')"

section \<open>The stability gate: \<open>lastRef\<close>\<close>

text \<open>
  \<^verbatim>\<open>const lastRef = useRef({ value: "", hits: 0 });\<close>

  Both polling loops run the same statements on a decoded raw string:
  \<^verbatim>\<open>
  const cleaned = cleanISBN(raw);
  if (cleaned) {
    const last = lastRef.current;
    if (last.value === cleaned) last.hits += 1;
    else lastRef.current = { value: cleaned, hits: 1 };
    if (lastRef.current.hits >= 2) {
      onDetected(cleaned);
      return;
    }
  }\<close>

  \<open>observe\<close> is the update of \<open>lastRef.current\<close>; \<open>gateStep\<close> is the whole block: it
  returns the new \<open>lastRef.current\<close> and the argument of \<open>onDetected\<close> when it is called.
  \<open>feed\<close> runs the block on the raw strings of successive decode attempts, until the loop
  returns.
\<close>

record gate =
  value' :: string
  hits :: nat

definition initialGate :: gate where
  "initialGate = \<lparr>value' = [], hits = 0\<rparr>"

definition observe :: "gate \<Rightarrow> string \<Rightarrow> gate" where
  "observe cur cleaned =
     (if value' cur = cleaned then cur\<lparr>hits := hits cur + 1\<rparr>
      else \<lparr>value' = cleaned, hits = 1\<rparr>)"

definition gateStep :: "gate \<Rightarrow> string \<Rightarrow> gate \<times> string option" where
  "gateStep cur raw =
     (let cleaned = cleanISBN raw
      in if cleaned \<noteq> []
         then (let cur' = observe cur cleaned
               in if 2 \<le> hits cur' then (cur', Some cleaned) else (cur', None))
         else (cur, None))"

fun feed :: "gate \<Rightarrow> string list \<Rightarrow> gate \<times> string option" where
  "feed cur [] = (cur, None)"
| "feed cur (raw # raws) =
     (case gateStep cur raw of
        (cur', Some v) \<Rightarrow> (cur', Some v)
      | (cur', None) \<Rightarrow> feed cur' raws)"

section \<open>Frame conditioning: crop rectangle and binarization\<close>

subsection \<open>Double-precision arithmetic\<close>

text \<open>
  JavaScript numbers are IEEE 754 doubles. A finite double is a rational number, and every
  arithmetic operation returns the exact result rounded to the nearest double, ties to the
  even significand. \<open>fl\<close> is that rounding for the normal range (53-bit significands);
  overflow and subnormal numbers are not modelled: they do not occur for products and sums
  of pixel values and video dimensions with the constants below.
\<close>

definition pow2 :: "int \<Rightarrow> rat" where
  "pow2 e = (if 0 \<le> e then 2 ^ nat e else 1 / 2 ^ nat (- e))"

definition ilog2 :: "rat \<Rightarrow> int" where
  "ilog2 a = (if 1 \<le> a then int (floorlog 2 (nat \<lfloor>a\<rfloor>)) - 1
              else - int (floorlog 2 (nat (\<lceil>1 / a\<rceil> - 1))))"

definition roundTiesToEven :: "rat \<Rightarrow> int" where
  "roundTiesToEven m =
     (let n = \<lfloor>m\<rfloor>; r = m - of_int n
      in if r < 1 / 2 then n else if 1 / 2 < r then n + 1 else if even n then n else n + 1)"

definition fl :: "rat \<Rightarrow> rat" where
  "fl x = (if x = 0 then 0
           else let a = \<bar>x\<bar>; u = pow2 (ilog2 a - 52)
                in sgn x * of_int (roundTiesToEven (a / u)) * u)"

definition fmul :: "rat \<Rightarrow> rat \<Rightarrow> rat" where
  "fmul a b = fl (a * b)"

definition fadd :: "rat \<Rightarrow> rat \<Rightarrow> rat" where
  "fadd a b = fl (a + b)"

text \<open>\<open>x | 0\<close> is \<open>ToInt32\<close>: truncate toward zero, then wrap into the signed 32-bit range.\<close>

definition toInt32 :: "rat \<Rightarrow> int" where
  "toInt32 x =
     (let n = (if 0 \<le> x then \<lfloor>x\<rfloor> else \<lceil>x\<rceil>); m = n mod 2 ^ 32
      in if 2 ^ 31 \<le> m then m - 2 ^ 32 else m)"

subsection \<open>The crop rectangle\<close>

text \<open>
  \<^verbatim>\<open>
  const cx = Math.floor(w * 0.10);
  const cy = Math.floor(h * 0.55);
  const cw = Math.floor(w * 0.80);
  const ch = Math.floor(h * 0.30);
  const imageData = ctx.getImageData(cx, cy, cw, ch);\<close>

  A decimal literal denotes the double nearest to it.
\<close>

definition cx :: "nat \<Rightarrow> int" where
  "cx w = \<lfloor>fmul (of_nat w) (fl (10 / 100))\<rfloor>"

definition cy :: "nat \<Rightarrow> int" where
  "cy h = \<lfloor>fmul (of_nat h) (fl (55 / 100))\<rfloor>"

definition cw :: "nat \<Rightarrow> int" where
  "cw w = \<lfloor>fmul (of_nat w) (fl (80 / 100))\<rfloor>"

definition ch :: "nat \<Rightarrow> int" where
  "ch h = \<lfloor>fmul (of_nat h) (fl (30 / 100))\<rfloor>"

text \<open>The rectangle read from the canvas: top-left \<open>(x, y)\<close>, then width and height.\<close>

definition cropRect :: "nat \<Rightarrow> nat \<Rightarrow> (int \<times> int) \<times> (int \<times> int)" where
  "cropRect w h = ((cx w, cy h), (cw w, ch h))"

text \<open>
  The rectangle as the specification words it: 10 percent of the width, 55 percent of the
  height, and a size of 80 percent of the width by 30 percent of the height.
\<close>

definition spec_cropRect :: "nat \<Rightarrow> nat \<Rightarrow> (rat \<times> rat) \<times> (rat \<times> rat)" where
  "spec_cropRect w h =
     ((10 / 100 * of_nat w, 55 / 100 * of_nat h), (80 / 100 * of_nat w, 30 / 100 * of_nat h))"

subsection \<open>Binarization\<close>

text \<open>
  \<^verbatim>\<open>
  const d = imageData.data;
  for (let i = 0; i < d.length; i += 4) {
    const g = (d[i] * 0.299 + d[i + 1] * 0.587 + d[i + 2] * 0.114) | 0;
    const v = g > 160 ? 255 : 0;
    d[i] = d[i + 1] = d[i + 2] = v;
  }\<close>

  \<open>d\<close> is a \<open>Uint8ClampedArray\<close>: a list of bytes, four per pixel (red, green, blue, alpha).
  \<open>weighted r g b\<close> is the sum in parentheses, evaluated from the left, \<open>grey r g b\<close>
  is the source's \<open>g\<close>, \<open>threshold\<close> its \<open>v\<close>. The length of an
  \<open>ImageData\<close> buffer is a multiple of four; for completeness the last equations give what
  the loop does to an incomplete last pixel, where a read past the end is \<open>undefined\<close>, the
  sum is \<open>NaN\<close>, \<open>NaN | 0\<close> is 0, and a write past the end is ignored.
\<close>

definition weighted :: "nat \<Rightarrow> nat \<Rightarrow> nat \<Rightarrow> rat" where
  "weighted r g b =
     fadd (fadd (fmul (of_nat r) (fl (299 / 1000))) (fmul (of_nat g) (fl (587 / 1000))))
          (fmul (of_nat b) (fl (114 / 1000)))"

definition grey :: "nat \<Rightarrow> nat \<Rightarrow> nat \<Rightarrow> int" where
  "grey r g b = toInt32 (weighted r g b)"

definition threshold :: "nat \<Rightarrow> nat \<Rightarrow> nat \<Rightarrow> nat" where
  "threshold r g b = (if 160 < grey r g b then 255 else 0)"

fun binarize :: "nat list \<Rightarrow> nat list" where
  "binarize (r # g # b # a # rest) =
     (let v = threshold r g b in v # v # v # a # binarize rest)"
| "binarize [r, g, b] = (let v = threshold r g b in [v, v, v])"
| "binarize [r, g] = [0, 0]"
| "binarize [r] = [0]"
| "binarize [] = []"

text \<open>
  The luma as the specification words it, the exact weighted sum
  \<open>0.299 R + 0.587 G + 0.114 B\<close>, and its rule: white when the luma exceeds 160.
\<close>

definition spec_luma :: "nat \<Rightarrow> nat \<Rightarrow> nat \<Rightarrow> rat" where
  "spec_luma r g b = 299 / 1000 * of_nat r + 587 / 1000 * of_nat g + 114 / 1000 * of_nat b"

definition spec_threshold :: "nat \<Rightarrow> nat \<Rightarrow> nat \<Rightarrow> nat" where
  "spec_threshold r g b = (if 160 < spec_luma r g b then 255 else 0)"

section \<open>Camera acquisition: \<open>pickBestCamera\<close>, \<open>getBestVideoStream\<close>\<close>

text \<open>
  A \<open>MediaStream\<close> is the list of its tracks, a track is known by its identity. An exception
  value carries its \<open>name\<close> and \<open>message\<close>.
\<close>

type_synonym track = nat

type_synonym stream = "track list"

datatype exn = Exn string string

record deviceInfo =
  kind :: string
  label :: string
  deviceId :: string

text \<open>
  The \<open>video\<close> member of a \<open>getUserMedia\<close> request is \<open>true\<close> or a set of constraints; each
  constraint is absent or present. Every request of the source has \<open>audio: false\<close>.
\<close>

record videoConstraints =
  facingModeIdeal :: "string option"
  deviceIdExact :: "string option"
  widthIdeal :: "nat option"
  heightIdeal :: "nat option"

datatype video = VideoTrue | Video videoConstraints

record request =
  videoOf :: video
  audio :: bool

text \<open>
  The browser: what \<open>navigator.mediaDevices.getUserMedia\<close> answers to each request (a stream,
  or a rejection), and what \<open>enumerateDevices\<close> answers.
\<close>

record mediaDevices =
  getUserMedia :: "request \<Rightarrow> exn + stream"
  enumerateDevices :: "exn + deviceInfo list"

text \<open>
  \<^verbatim>\<open>
  function pickBestCamera(devices) {
    const back = devices.find(d => /back|rear|environment/i.test(d.label || ""));
    return (back || devices[0] || null)?.deviceId || undefined;
  }\<close>

  The regular expression has no anchors: it matches when one of the three words occurs
  somewhere in the label. Under the flag \<open>i\<close> two characters match when their upper-case
  forms agree, and no character outside ASCII has an ASCII upper-case form there.
  \<open>undefined\<close> is \<open>None\<close>; the empty string is falsy, so an empty \<open>deviceId\<close> gives
  \<open>undefined\<close> too.
\<close>

fun occursIn :: "string \<Rightarrow> string \<Rightarrow> bool" where
  "occursIn pat [] = (pat = [])"
| "occursIn pat (c # cs) = (prefix pat (c # cs) \<or> occursIn pat cs)"

definition testBackRearEnvironment :: "string \<Rightarrow> bool" where
  "testBackRearEnvironment l =
     (let u = toUpperCase l
      in occursIn (toUpperCase ''back'') u \<or> occursIn (toUpperCase ''rear'') u \<or>
         occursIn (toUpperCase ''environment'') u)"

definition pickBestCamera :: "deviceInfo list \<Rightarrow> string option" where
  "pickBestCamera devices =
     (let back = find (\<lambda>d. testBackRearEnvironment (label d)) devices;
          chosen = (case back of Some d \<Rightarrow> Some d
                    | None \<Rightarrow> (case devices of [] \<Rightarrow> None | d # _ \<Rightarrow> Some d))
      in case chosen of
           None \<Rightarrow> None
         | Some d \<Rightarrow> if deviceId d = [] then None else Some (deviceId d))"

text \<open>
  \<^verbatim>\<open>
  async function getBestVideoStream() {
    const ideal = { width: { ideal: 1280 }, height: { ideal: 720 } };
    // Attempt 1: facingMode environment
    try {
      return await navigator.mediaDevices.getUserMedia({
        video: { facingMode: { ideal: "environment" }, ...ideal },
        audio: false,
      });
    } catch (e) {
      // continue
    }
    // Attempt 2: choose by deviceId (after permission, labels are usually available)
    try {
      const devices = (await navigator.mediaDevices.enumerateDevices()).filter(
        (d) => d.kind === "videoinput"
      );
      const deviceId = pickBestCamera(devices);
      if (deviceId) {
        return await navigator.mediaDevices.getUserMedia({
          video: { deviceId: { exact: deviceId }, ...ideal },
          audio: false,
        });
      }
    } catch (e) {
      // continue
    }
    // Attempt 3: generic
    return await navigator.mediaDevices.getUserMedia({ video: true, audio: false });
  }\<close>

  The function returns the requests it has sent, in order, with its result: \<open>Inr\<close> the
  stream, or \<open>Inl\<close> the exception it rejects with.
\<close>

definition ideal :: videoConstraints where
  "ideal = \<lparr>facingModeIdeal = None, deviceIdExact = None,
             widthIdeal = Some 1280, heightIdeal = Some 720\<rparr>"

definition attempt1 :: request where
  "attempt1 = \<lparr>videoOf = Video (ideal\<lparr>facingModeIdeal := Some ''environment''\<rparr>), audio = False\<rparr>"

definition attempt2 :: "string \<Rightarrow> request" where
  "attempt2 devId = \<lparr>videoOf = Video (ideal\<lparr>deviceIdExact := Some devId\<rparr>), audio = False\<rparr>"

definition attempt3 :: request where
  "attempt3 = \<lparr>videoOf = VideoTrue, audio = False\<rparr>"

definition getBestVideoStream :: "mediaDevices \<Rightarrow> request list \<times> (exn + stream)" where
  "getBestVideoStream md =
     (case getUserMedia md attempt1 of
        Inr s \<Rightarrow> ([attempt1], Inr s)
      | Inl e1 \<Rightarrow>
          (let generic = (\<lambda>sent. (sent @ [attempt3], getUserMedia md attempt3))
           in case enumerateDevices md of
                Inl e \<Rightarrow> generic [attempt1]
              | Inr ds \<Rightarrow>
                  (let devices = filter (\<lambda>d. kind d = ''videoinput'') ds
                   in case pickBestCamera devices of
                        None \<Rightarrow> generic [attempt1]
                      | Some devId \<Rightarrow>
                          (case getUserMedia md (attempt2 devId) of
                             Inr s \<Rightarrow> ([attempt1, attempt2 devId], Inr s)
                           | Inl e2 \<Rightarrow> generic [attempt1, attempt2 devId]))))"

section \<open>The scanner component: \<open>CameraISBNScanner\<close>\<close>

text \<open>
  \<^verbatim>\<open>
  function CameraISBNScanner({ onDetected, onClose }) {
    const videoRef = useRef(null);
    const streamRef = useRef(null);
    const stopRef = useRef(false);
    const lastRef = useRef({ value: "", hits: 0 });
    ...
    useEffect(() => {
      stopRef.current = false;
      async function start() { ... }
      start();
      return () => { ... };
    }, [onDetected]);\<close>

  The component runs on the browser's event loop: \<open>start\<close> and the polling loop are
  \<open>async\<close> functions that run until their next \<open>await\<close> (or timer) and are resumed by an
  event. The model is a state and a step function: one step per turn.

  The effect runs when the component is mounted, and again after every render at which
  \<open>onDetected\<close> has changed: the cleanup function of the previous run is called, then the
  body, in one turn. The application passes \<open>onDetectedISBN\<close>, a function that the form
  creates anew at each of its renders, so every render of the form while the scanner is
  open runs the effect again. At unmount the cleanup function of the last run is called,
  and the effect does not run any more. The refs live as long as the component: they are
  shared by all runs of the effect. Each run calls \<open>start\<close>; a \<open>start\<close> called by an
  earlier run, and its loop, keep their timers and their pending calls.

  The state holds the three refs of the source that matter here (\<open>streamRef\<close>, \<open>stopRef\<close>,
  \<open>lastRef\<close>), whether the component has been unmounted, for every call of \<open>start\<close> (in the
  order of the calls, numbered from 0) the point where it or its loop is suspended, and a
  record of the component's effects on the outside: the tracks stopped, the frames drawn
  to a canvas, the decode calls issued, the calls of \<open>onDetected\<close>, and the exceptions
  caught by \<open>start\<close>.
\<close>

datatype suspended =
    AwaitStream
  | AwaitFocus
  | AwaitPlay
  | AwaitTimer
  | AwaitDecode
  | Returned

record scanner =
  streamRef :: "stream option"
  stopRef :: bool
  lastRef :: gate
  unmounted :: bool
  starts :: "suspended list"
  stoppedTracks :: "track set"
  drawn :: nat
  decodeCalls :: nat
  onDetectedCalls :: "string list"
  caught :: "exn list"

text \<open>
  The events; \<open>i\<close> is the number of the call of \<open>start\<close> that is resumed.
  \<open>StreamSettled i r v\<close>: its \<open>getBestVideoStream()\<close> settles with \<open>r\<close>, and \<open>v\<close> tells
  whether \<open>videoRef.current\<close> is still attached at that moment. \<open>FocusSettled i\<close>,
  \<open>PlaySettled i r\<close>: its \<open>tryApplyFocus\<close>, its \<open>video.play()\<close> settles. \<open>LoopCalled i w h\<close>:
  its \<open>loop\<close> (or \<open>decodeLoop\<close>) is called, directly after \<open>play\<close> or by its timer, when the
  video has dimensions \<open>w\<close> and \<open>h\<close>. \<open>DetectSettled i r\<close>: its \<open>detector.detect(canvas)\<close>
  settles, with the \<open>rawValue\<close>s of the codes it found. \<open>DecodeOnceSettled i r\<close>: its
  \<open>reader.decodeOnceFromVideoElement\<close> settles, with the text of its result.
  \<open>EffectRerun\<close>: \<open>onDetected\<close> has changed, the cleanup function and then the body of the
  effect run. \<open>Unmount\<close>: the component is unmounted, the cleanup function runs.
\<close>

datatype event =
    StreamSettled nat "exn + stream" bool
  | FocusSettled nat
  | PlaySettled nat "exn option"
  | LoopCalled nat nat nat
  | DetectSettled nat "exn + string list"
  | DecodeOnceSettled nat "exn + string"
  | EffectRerun
  | Unmount

text \<open>
  Where call \<open>i\<close> of \<open>start\<close> is suspended, if there is such a call, and the state in which
  it is suspended at \<open>p\<close>.
\<close>

definition suspendedAt :: "scanner \<Rightarrow> nat \<Rightarrow> suspended option" where
  "suspendedAt s i = (if i < length (starts s) then Some (starts s ! i) else None)"

definition suspend :: "nat \<Rightarrow> suspended \<Rightarrow> scanner \<Rightarrow> scanner" where
  "suspend i p s = s\<lparr>starts := (starts s)[i := p]\<rparr>"

text \<open>
  \<^verbatim>\<open>
  return () => {
    stopRef.current = true;
    try {
      const s = streamRef.current;
      if (s) s.getTracks().forEach(t => t.stop());
    } catch {}
  };\<close>
\<close>

definition cleanup :: "scanner \<Rightarrow> scanner" where
  "cleanup s =
     (let s1 = s\<lparr>stopRef := True\<rparr>
      in case streamRef s1 of
           None \<Rightarrow> s1
         | Some st \<Rightarrow> s1\<lparr>stoppedTracks := stoppedTracks s1 \<union> set st\<rparr>)"

text \<open>
  The effect body sets \<open>stopRef.current = false\<close> and calls \<open>start()\<close>, which runs up to
  its \<open>await getBestVideoStream()\<close>. \<open>mounted\<close> is the state after the first run of the
  body, for a fresh component: the refs have the initial values given to \<open>useRef\<close>.
\<close>

definition effectBody :: "scanner \<Rightarrow> scanner" where
  "effectBody s = s\<lparr>stopRef := False, starts := starts s @ [AwaitStream]\<rparr>"

definition mounted :: scanner where
  "mounted =
     effectBody \<lparr>streamRef = None, stopRef = False, lastRef = initialGate, unmounted = False,
                 starts = [], stoppedTracks = {}, drawn = 0, decodeCalls = 0,
                 onDetectedCalls = [], caught = []\<rparr>"

text \<open>
  \<^verbatim>\<open>
  stream = await getBestVideoStream();
  streamRef.current = stream;
  const video = videoRef.current;
  if (!video) return;
  video.srcObject = stream;
  const [track] = stream.getVideoTracks();
  await tryApplyFocus(track);
  await video.play();
  ...
  } catch (e) { console.error("CAMERA ERROR:", e); setError(...); setStatus(""); }\<close>

  \<open>tryApplyFocus\<close> catches every exception of its own, so it always resolves.
\<close>

definition streamSettled :: "nat \<Rightarrow> scanner \<Rightarrow> exn + stream \<Rightarrow> bool \<Rightarrow> scanner" where
  "streamSettled i s r videoAttached =
     (case r of
        Inl e \<Rightarrow> suspend i Returned (s\<lparr>caught := caught s @ [e]\<rparr>)
      | Inr stream \<Rightarrow>
          (let s1 = s\<lparr>streamRef := Some stream\<rparr>
           in if \<not> videoAttached then suspend i Returned s1 else suspend i AwaitFocus s1))"

definition playSettled :: "nat \<Rightarrow> scanner \<Rightarrow> exn option \<Rightarrow> scanner" where
  "playSettled i s r =
     (case r of
        Some e \<Rightarrow> suspend i Returned (s\<lparr>caught := caught s @ [e]\<rparr>)
      | None \<Rightarrow> suspend i AwaitTimer s)"

text \<open>
  The loop with the native detector, up to its \<open>await\<close>:
  \<^verbatim>\<open>
  const loop = async () => {
    if (stopRef.current) return;
    try {
      const w = video.videoWidth || 0;
      const h = video.videoHeight || 0;
      if (w && h) {
        canvas.width = w; canvas.height = h;
        ctx.drawImage(video, 0, 0, w, h);
        ... crop, getImageData, binarize, putImageData ...
        const codes = await detector.detect(canvas);\<close>
  and after it:
  \<^verbatim>\<open>
        if (codes && codes.length) {
          const raw = codes[0].rawValue || "";
          ... the gate block ...
        }
      }
    } catch {}
    setTimeout(loop, 120);
  };\<close>

  \<open>getImageData\<close> throws when the width or the height of the rectangle is zero; the
  exception is caught by the \<open>catch\<close> of the loop, which then sets its timer. The other
  synchronous calls are taken to return normally: the constructors of the detector, the
  canvas and the reader, \<open>drawImage\<close>, \<open>putImageData\<close>, and \<open>onDetected\<close>, which the
  application passes as an \<open>async\<close> function (\<open>onDetectedISBN\<close>), so that a call of it returns
  a promise and does not throw.
\<close>

definition loopTop :: "nat \<Rightarrow> scanner \<Rightarrow> nat \<Rightarrow> nat \<Rightarrow> scanner" where
  "loopTop i s w h =
     (if stopRef s then suspend i Returned s
      else if w = 0 \<or> h = 0 then suspend i AwaitTimer s
      else (let s1 = s\<lparr>drawn := drawn s + 1\<rparr>
            in if cw w = 0 \<or> ch h = 0 then suspend i AwaitTimer s1
               else suspend i AwaitDecode (s1\<lparr>decodeCalls := decodeCalls s1 + 1\<rparr>)))"

text \<open>
  The gate block inside a loop: \<open>lastRef\<close> is the one ref of the component, whichever
  call of \<open>start\<close> the loop belongs to.
\<close>

definition gateBlock :: "nat \<Rightarrow> scanner \<Rightarrow> string \<Rightarrow> scanner" where
  "gateBlock i s raw =
     (case gateStep (lastRef s) raw of
        (cur', Some v) \<Rightarrow>
          suspend i Returned (s\<lparr>lastRef := cur', onDetectedCalls := onDetectedCalls s @ [v]\<rparr>)
      | (cur', None) \<Rightarrow> suspend i AwaitTimer (s\<lparr>lastRef := cur'\<rparr>))"

definition loopResume :: "nat \<Rightarrow> scanner \<Rightarrow> exn + string list \<Rightarrow> scanner" where
  "loopResume i s r =
     (case r of
        Inl e \<Rightarrow> suspend i AwaitTimer s
      | Inr codes \<Rightarrow>
          (case codes of
             [] \<Rightarrow> suspend i AwaitTimer s
           | raw # _ \<Rightarrow> gateBlock i s raw))"

text \<open>
  The loop with the software decoder:
  \<^verbatim>\<open>
  const decodeLoop = async () => {
    if (stopRef.current) return;
    try {
      const result = await reader.decodeOnceFromVideoElement(video);
      const cleaned = cleanISBN(result?.getText?.() || result?.text || "");
      ... the gate block ...
    } catch (e) {
      if (!(e instanceof NotFoundException)) {
        // ignore
      }
    }
    setTimeout(decodeLoop, 120);
  };\<close>
\<close>

definition decodeLoopTop :: "nat \<Rightarrow> scanner \<Rightarrow> scanner" where
  "decodeLoopTop i s =
     (if stopRef s then suspend i Returned s
      else suspend i AwaitDecode (s\<lparr>decodeCalls := decodeCalls s + 1\<rparr>))"

definition decodeLoopResume :: "nat \<Rightarrow> scanner \<Rightarrow> exn + string \<Rightarrow> scanner" where
  "decodeLoopResume i s r =
     (case r of
        Inl e \<Rightarrow> suspend i AwaitTimer s
      | Inr str \<Rightarrow> gateBlock i s str)"

text \<open>
  One turn. \<open>native\<close> is \<open>supportsBarcodeDetector()\<close>, which selects the loop. An event
  that cannot happen where call \<open>i\<close> is suspended gives \<open>None\<close>, and so does a run of the
  effect or a second unmount after the unmount. The first call of the loop happens in the
  turn in which \<open>play\<close> resolves; the model makes it a turn of its own, so another event may
  stand between them: it then acts as if it came just before \<open>play\<close> resolves, since
  nothing in between reads a ref.
\<close>

fun step :: "bool \<Rightarrow> scanner \<Rightarrow> event \<Rightarrow> scanner option" where
  "step native s Unmount =
     (if unmounted s then None else Some ((cleanup s)\<lparr>unmounted := True\<rparr>))"
| "step native s EffectRerun =
     (if unmounted s then None else Some (effectBody (cleanup s)))"
| "step native s (StreamSettled i r v) =
     (if suspendedAt s i = Some AwaitStream then Some (streamSettled i s r v) else None)"
| "step native s (FocusSettled i) =
     (if suspendedAt s i = Some AwaitFocus then Some (suspend i AwaitPlay s) else None)"
| "step native s (PlaySettled i r) =
     (if suspendedAt s i = Some AwaitPlay then Some (playSettled i s r) else None)"
| "step native s (LoopCalled i w h) =
     (if suspendedAt s i = Some AwaitTimer
      then Some (if native then loopTop i s w h else decodeLoopTop i s)
      else None)"
| "step native s (DetectSettled i r) =
     (if suspendedAt s i = Some AwaitDecode \<and> native then Some (loopResume i s r) else None)"
| "step native s (DecodeOnceSettled i r) =
     (if suspendedAt s i = Some AwaitDecode \<and> \<not> native then Some (decodeLoopResume i s r)
      else None)"

fun run :: "bool \<Rightarrow> scanner \<Rightarrow> event list \<Rightarrow> scanner option" where
  "run native s [] = Some s"
| "run native s (e # es) =
     (case step native s e of
        None \<Rightarrow> None
      | Some s' \<Rightarrow> run native s' es)"

section \<open>Notions used in the statements\<close>

text \<open>
  The successful decode attempts: the non-empty cleaned strings among the raw strings fed
  to the gate, and among the decode results of a list of events, in order.
\<close>

definition successes :: "string list \<Rightarrow> string list" where
  "successes raws = filter (\<lambda>c. c \<noteq> []) (map cleanISBN raws)"

fun readOf :: "event \<Rightarrow> string list" where
  "readOf (DetectSettled i (Inr (raw # codes))) = successes [raw]"
| "readOf (DecodeOnceSettled i (Inr str)) = successes [str]"
| "readOf e = []"

definition reads :: "event list \<Rightarrow> string list" where
  "reads es = concat (map readOf es)"

text \<open>
  The states of the gate before a confirmation: no hit and no string yet, or one hit of a
  non-empty string. \<open>held\<close> is the string the gate holds then, as a list.
\<close>

definition armed :: "gate \<Rightarrow> bool" where
  "armed cur = (hits cur \<le> 1 \<and> (if hits cur = 0 then value' cur = [] else value' cur \<noteq> []))"

definition held :: "gate \<Rightarrow> string list" where
  "held cur = (if hits cur = 0 then [] else [value' cur])"

text \<open>
  The unit \<open>2 ^ -46\<close> in which the rounding errors of the five operations of
  \<open>weighted\<close> are counted.
\<close>

definition ulp46 :: rat where
  "ulp46 = 1 / 2 ^ 46"

text \<open>
  The elements of a list that repeat the element just before them, in order.
\<close>

fun repeated :: "string list \<Rightarrow> string list" where
  "repeated (a # b # rest) = (if a = b then [b] else []) @ repeated (b # rest)"
| "repeated [a] = []"
| "repeated [] = []"

text \<open>
  The invariant of the gate inside the component, for the successful reads \<open>rd\<close> so far:
  the gate holds the last of them, with at least one hit.
\<close>

definition gateInv :: "scanner \<Rightarrow> string list \<Rightarrow> bool" where
  "gateInv s rd =
     (if rd = [] then lastRef s = initialGate
      else value' (lastRef s) = last rd \<and> 1 \<le> hits (lastRef s))"

text \<open>
  The event that settles the pending decode call of call \<open>i\<close> of \<open>start\<close> with one code
  \<open>raw\<close>, for either loop.
\<close>

definition decodeSettled :: "bool \<Rightarrow> nat \<Rightarrow> string \<Rightarrow> event" where
  "decodeSettled native i raw =
     (if native then DetectSettled i (Inr [raw]) else DecodeOnceSettled i (Inr raw))"

text \<open>
  The device that the second strategy of \<open>getBestVideoStream\<close> asks for, if any.
\<close>

definition pickedDevice :: "mediaDevices \<Rightarrow> string option" where
  "pickedDevice md =
     (case enumerateDevices md of
        Inl e \<Rightarrow> None
      | Inr ds \<Rightarrow> pickBestCamera (filter (\<lambda>d. kind d = ''videoinput'') ds))"

text \<open>
  Two browsers for the examples. In both the first request is rejected. The first has a
  microphone, a front camera and a back camera; the second has one camera, whose label
  says nothing about where it faces.
\<close>

definition browser1 :: mediaDevices where
  "browser1 =
     \<lparr>getUserMedia = (\<lambda>q. if q = attempt2 ''back1'' then Inr [7]
                          else Inl (Exn ''OverconstrainedError'' [])),
      enumerateDevices =
        Inr [\<lparr>kind = ''audioinput'', label = ''Microphone'', deviceId = ''mic''\<rparr>,
             \<lparr>kind = ''videoinput'', label = ''Front Camera'', deviceId = ''front1''\<rparr>,
             \<lparr>kind = ''videoinput'', label = ''BACK Camera'', deviceId = ''back1''\<rparr>]\<rparr>"

definition browser2 :: mediaDevices where
  "browser2 =
     \<lparr>getUserMedia = (\<lambda>q. if q = attempt2 ''abc'' then Inr [7]
                          else Inl (Exn ''OverconstrainedError'' [])),
      enumerateDevices =
        Inr [\<lparr>kind = ''videoinput'', label = ''FaceTime HD Camera'', deviceId = ''abc''\<rparr>]\<rparr>"

section \<open>Properties of the ISBN strings\<close>

lemma filter_dropWhile_disjoint:
  "(\<And>c. Q c \<Longrightarrow> \<not> P c) \<Longrightarrow> filter P (dropWhile Q xs) = filter P xs"
  by (induction xs) auto

lemma filter_trim:
  assumes "\<And>c. isWhiteSpace c \<Longrightarrow> \<not> P c"
  shows "filter P (trim s) = filter P s"
proof -
  have "filter P (trim s) = rev (filter P (dropWhile isWhiteSpace (rev (dropWhile isWhiteSpace s))))"
    by (simp add: trim_def rev_filter)
  also have "\<dots> = rev (filter P (rev (dropWhile isWhiteSpace s)))"
    using assms by (simp add: filter_dropWhile_disjoint)
  also have "\<dots> = filter P (dropWhile isWhiteSpace s)"
    by (simp add: rev_filter)
  also have "\<dots> = filter P s"
    using assms by (simp add: filter_dropWhile_disjoint)
  finally show ?thesis .
qed

lemma class_not_white: "isWhiteSpace c \<Longrightarrow> \<not> inClass09Xx c"
  by (auto simp: isWhiteSpace_def inClass09Xx_def isDigit_def)

text \<open>White space is deleted by the character class anyway, so \<open>trim\<close> changes nothing.\<close>

lemma cleanISBN_eq: "cleanISBN s = take 13 (toUpperCase (filter inClass09Xx s))"
  by (simp add: cleanISBN_def norm_def filter_trim class_not_white Let_def)

lemma toUpperChar_fix: "isbnChar c \<Longrightarrow> toUpperChar c = c"
  by (auto simp: isbnChar_def isDigit_def) (simp_all add: toUpperChar_def)

lemma toUpperChar_class: "inClass09Xx c \<Longrightarrow> isbnChar (toUpperChar c)"
  by (auto simp: inClass09Xx_def isDigit_def) (simp_all add: toUpperChar_def isbnChar_def isDigit_def)

lemma isbnChar_class: "isbnChar c \<Longrightarrow> inClass09Xx c"
  by (auto simp: isbnChar_def inClass09Xx_def)

lemma cleanISBN_chars: "list_all isbnChar (cleanISBN s)"
proof -
  have "list_all isbnChar (toUpperCase (filter inClass09Xx s))"
    by (simp add: toUpperCase_def list_all_iff toUpperChar_class)
  then show ?thesis
    unfolding cleanISBN_eq list_all_iff by (meson in_set_takeD)
qed

lemma cleanISBN_length: "length (cleanISBN s) \<le> 13"
  by (simp add: cleanISBN_eq)

lemma cleanISBN_fixpoint:
  assumes "list_all isbnChar x" "length x \<le> 13"
  shows "cleanISBN x = x"
proof -
  have "filter inClass09Xx x = x"
    using assms(1) by (simp add: list_all_iff isbnChar_class)
  moreover have "toUpperCase x = x"
    using assms(1) by (simp add: toUpperCase_def list_all_iff toUpperChar_fix map_idI)
  ultimately show ?thesis
    using assms(2) by (simp add: cleanISBN_eq)
qed

lemma inClass09Xx_set: "inClass09Xx c = (c \<in> set ''0123456789Xx'')"
  by (auto simp: inClass09Xx_def isDigit_def)

lemma isbnChar_set: "isbnChar c = (c \<in> set ''0123456789X'')"
  by (auto simp: isbnChar_def isDigit_def)

lemma toUpperChar_x:
  "inClass09Xx c \<Longrightarrow> toUpperChar c = (if c = CHR ''x'' then CHR ''X'' else c)"
  by (auto simp: inClass09Xx_def isDigit_def) (simp_all add: toUpperChar_def)

lemma cleanISBN_explicit:
  "cleanISBN s =
     take 13 (map (\<lambda>c. if c = CHR ''x'' then CHR ''X'' else c)
                  (filter (\<lambda>c. c \<in> set ''0123456789Xx'') s))"
proof -
  have "map toUpperChar (filter inClass09Xx s) =
        map (\<lambda>c. if c = CHR ''x'' then CHR ''X'' else c) (filter inClass09Xx s)"
    by (rule map_cong) (simp_all add: toUpperChar_x)
  moreover have "filter inClass09Xx s = filter (\<lambda>c. c \<in> set ''0123456789Xx'') s"
    by (rule filter_cong) (simp_all only: inClass09Xx_set)
  ultimately show ?thesis
    by (simp only: cleanISBN_eq toUpperCase_def)
qed

lemma cleanISBN_fixpoint_iff:
  "cleanISBN s = s \<longleftrightarrow> list_all isbnChar s \<and> length s \<le> 13"
proof
  assume "cleanISBN s = s"
  with cleanISBN_chars [of s] cleanISBN_length [of s]
  show "list_all isbnChar s \<and> length s \<le> 13" by simp
next
  assume "list_all isbnChar s \<and> length s \<le> 13"
  then show "cleanISBN s = s" by (simp add: cleanISBN_fixpoint)
qed

lemma cleanISBN_examples:
  "cleanISBN ''  isbn 0-306-40615-x '' = ''030640615X''"
  "cleanISBN ''978-0-13-110362-7 (x)'' = ''9780131103627''"
  by code_simp+

text \<open>
  Claim C5. \<open>cleanISBN\<close> maps every string to the string of its characters from
  \<open>0123456789Xx\<close>, with \<open>x\<close> turned into \<open>X\<close>, cut to its first 13 characters when it
  has more. The result has at most 13 characters, all of them digits or \<open>X\<close>; the strings
  that \<open>cleanISBN\<close> leaves unchanged are exactly the strings of this form; and
  \<open>cleanISBN\<close> is idempotent. Two instances: a lower-case \<open>x\<close> becomes \<open>X\<close>, and a
  fourteenth character is cut off.
\<close>

theorem cleanISBN_idempotent:
  "cleanISBN s =
     take 13 (map (\<lambda>c. if c = CHR ''x'' then CHR ''X'' else c)
                  (filter (\<lambda>c. c \<in> set ''0123456789Xx'') s)) \<and>
   cleanISBN (cleanISBN s) = cleanISBN s \<and>
   list_all (\<lambda>c. c \<in> set ''0123456789X'') (cleanISBN s) \<and>
   length (cleanISBN s) \<le> 13 \<and>
   (cleanISBN s = s \<longleftrightarrow> list_all (\<lambda>c. c \<in> set ''0123456789X'') s \<and> length s \<le> 13) \<and>
   cleanISBN ''  isbn 0-306-40615-x '' = ''030640615X'' \<and>
   cleanISBN ''978-0-13-110362-7 (x)'' = ''9780131103627''"
proof -
  have c: "list_all (\<lambda>c. c \<in> set ''0123456789X'') t = list_all isbnChar t" for t
    by (simp only: isbnChar_set [abs_def])
  have "cleanISBN (cleanISBN s) = cleanISBN s"
    by (rule cleanISBN_fixpoint [OF cleanISBN_chars cleanISBN_length])
  moreover have "list_all (\<lambda>c. c \<in> set ''0123456789X'') (cleanISBN s)"
    unfolding c by (rule cleanISBN_chars)
  moreover have "cleanISBN s = s \<longleftrightarrow>
      list_all (\<lambda>c. c \<in> set ''0123456789X'') s \<and> length s \<le> 13"
    unfolding c by (rule cleanISBN_fixpoint_iff)
  ultimately show ?thesis
    using cleanISBN_explicit [of s] cleanISBN_length [of s] cleanISBN_examples by blast
qed

text \<open>
  Claim C6, as the specification states it, fails: \<open>isValidISBN\<close> looks at the length
  only, so a string with an \<open>X\<close> in the middle is valid.
\<close>

theorem isValidISBN_inner_X:
  "isValidISBN ''123X567890'' \<and> \<not> spec_isValid ''123X567890''"
  by code_simp

text \<open>
  Claim C6, amended. \<open>isValidISBN s\<close> holds exactly when the normalized string has length
  10 or 13, that is, when \<open>s\<close> has exactly 10, or at least 13, characters from \<open>[0-9Xx]\<close>.
  The normalized string consists of digits and \<open>X\<close>; where the \<open>X\<close>s stand, and how many
  there are, is not looked at.
\<close>

theorem isValidISBN_length_only:
  "(isValidISBN s \<longleftrightarrow> length (cleanISBN s) = 10 \<or> length (cleanISBN s) = 13) \<and>
   (isValidISBN s \<longleftrightarrow>
      length (filter inClass09Xx s) = 10 \<or> 13 \<le> length (filter inClass09Xx s)) \<and>
   list_all isbnChar (cleanISBN s)"
proof -
  have "length (cleanISBN s) = min (length (filter inClass09Xx s)) 13"
    by (simp add: cleanISBN_eq toUpperCase_def)
  then show ?thesis
    using cleanISBN_chars by (auto simp: isValidISBN_def Let_def)
qed

section \<open>Properties of the stability gate\<close>

lemma gateStep_empty: "cleanISBN raw = [] \<Longrightarrow> gateStep cur raw = (cur, None)"
  by (simp add: gateStep_def)

lemma gateStep_same:
  "cleanISBN raw \<noteq> [] \<Longrightarrow> value' cur = cleanISBN raw \<Longrightarrow>
   gateStep cur raw =
     (cur\<lparr>hits := hits cur + 1\<rparr>, if 1 \<le> hits cur then Some (cleanISBN raw) else None)"
  by (simp add: gateStep_def observe_def Let_def)

lemma gateStep_other:
  "cleanISBN raw \<noteq> [] \<Longrightarrow> value' cur \<noteq> cleanISBN raw \<Longrightarrow>
   gateStep cur raw = (\<lparr>value' = cleanISBN raw, hits = 1\<rparr>, None)"
  by (simp add: gateStep_def observe_def Let_def)

lemma feed_all_empty: "\<forall>r\<in>set raws. cleanISBN r = [] \<Longrightarrow> feed cur raws = (cur, None)"
  by (induction raws) (simp_all add: gateStep_empty)

lemma successes_clean: "v \<in> set (successes raws) \<Longrightarrow> v \<noteq> [] \<and> list_all isbnChar v \<and> length v \<le> 13"
  by (auto simp: successes_def cleanISBN_chars cleanISBN_length)

text \<open>
  Claim C2. On a raw string whose cleaned form \<open>c\<close> is not empty, the gate adds one to
  \<open>hits\<close> when \<open>c\<close> is the string it holds, and otherwise holds \<open>c\<close> with one hit; it
  reports a confirmation exactly when \<open>hits\<close> is then at least 2. From the initial gate,
  one string twice confirms at the second observation; two different strings do not
  confirm, and a third observation equal to the second then does.
\<close>

theorem gate_observe:
  assumes "cleanISBN r1 \<noteq> []" "cleanISBN r2 \<noteq> []" "cleanISBN r1 \<noteq> cleanISBN r2"
  shows "gateStep cur r1 =
           (let c = cleanISBN r1;
                cur' = (if value' cur = c then cur\<lparr>hits := hits cur + 1\<rparr>
                        else \<lparr>value' = c, hits = 1\<rparr>)
            in (cur', if 2 \<le> hits cur' then Some c else None)) \<and>
         feed initialGate [r1] = (\<lparr>value' = cleanISBN r1, hits = 1\<rparr>, None) \<and>
         feed initialGate [r1, r1] = (\<lparr>value' = cleanISBN r1, hits = 2\<rparr>, Some (cleanISBN r1)) \<and>
         feed initialGate [r1, r2] = (\<lparr>value' = cleanISBN r2, hits = 1\<rparr>, None) \<and>
         feed initialGate [r1, r2, r2] = (\<lparr>value' = cleanISBN r2, hits = 2\<rparr>, Some (cleanISBN r2))"
proof -
  have a: "gateStep initialGate r1 = (\<lparr>value' = cleanISBN r1, hits = 1\<rparr>, None)"
    using assms(1) by (simp add: gateStep_other initialGate_def)
  have b: "gateStep \<lparr>value' = cleanISBN r1, hits = 1\<rparr> r1 =
             (\<lparr>value' = cleanISBN r1, hits = 2\<rparr>, Some (cleanISBN r1))"
    using assms(1) by (simp add: gateStep_same)
  have c: "gateStep \<lparr>value' = cleanISBN r1, hits = 1\<rparr> r2 = (\<lparr>value' = cleanISBN r2, hits = 1\<rparr>, None)"
    using assms(2,3) by (simp add: gateStep_other)
  have d: "gateStep \<lparr>value' = cleanISBN r2, hits = 1\<rparr> r2 =
             (\<lparr>value' = cleanISBN r2, hits = 2\<rparr>, Some (cleanISBN r2))"
    using assms(2) by (simp add: gateStep_same)
  have "gateStep cur r1 =
           (let c = cleanISBN r1;
                cur' = (if value' cur = c then cur\<lparr>hits := hits cur + 1\<rparr>
                        else \<lparr>value' = c, hits = 1\<rparr>)
            in (cur', if 2 \<le> hits cur' then Some c else None))"
    using assms(1) by (simp add: gateStep_def observe_def Let_def)
  then show ?thesis by (simp add: a b c d del: One_nat_def)
qed

theorem gate_observe_witness:
  "cleanISBN ''9780131103627'' \<noteq> [] \<and> cleanISBN ''9780000000000'' \<noteq> [] \<and>
   cleanISBN ''9780131103627'' \<noteq> cleanISBN ''9780000000000'' \<and>
   gateStep initialGate ''9780131103627'' = (\<lparr>value' = ''9780131103627'', hits = 1\<rparr>, None) \<and>
   feed initialGate [''9780131103627'', ''9780131103627''] =
     (\<lparr>value' = ''9780131103627'', hits = 2\<rparr>, Some ''9780131103627'') \<and>
   feed initialGate [''9780131103627'', ''9780000000000''] =
     (\<lparr>value' = ''9780000000000'', hits = 1\<rparr>, None) \<and>
   feed initialGate [''9780131103627'', ''9780000000000'', ''9780000000000''] =
     (\<lparr>value' = ''9780000000000'', hits = 2\<rparr>, Some ''9780000000000'')"
proof -
  have c1: "cleanISBN ''9780131103627'' = ''9780131103627''"
    and c2: "cleanISBN ''9780000000000'' = ''9780000000000''"
    by code_simp+
  have h: "cleanISBN ''9780131103627'' \<noteq> []" "cleanISBN ''9780000000000'' \<noteq> []"
    "cleanISBN ''9780131103627'' \<noteq> cleanISBN ''9780000000000''"
    by (simp_all add: c1 c2)
  from gate_observe [OF h, of initialGate] h show ?thesis
    by (simp add: c1 c2 initialGate_def Let_def del: feed.simps)
qed


lemma feed_armed:
  assumes "armed cur"
  shows "feed cur raws = (cur', out) \<Longrightarrow>
         (case out of
            None \<Rightarrow> armed cur' \<and> distinct_adj (held cur @ successes raws)
          | Some v \<Rightarrow>
             v \<noteq> [] \<and> (\<exists>pre post. held cur @ successes raws = pre @ [v, v] @ post \<and>
                          distinct_adj (pre @ [v])))"
  using assms
proof (induction raws arbitrary: cur)
  case Nil
  then show ?case by (simp add: successes_def held_def)
next
  case (Cons r raws)
  let ?c = "cleanISBN r"
  consider (empty) "?c = []" | (same) "?c \<noteq> []" "value' cur = ?c" | (other) "?c \<noteq> []" "value' cur \<noteq> ?c"
    by blast
  then show ?case
  proof cases
    case empty
    then have "feed cur (r # raws) = feed cur raws" "successes (r # raws) = successes raws"
      by (simp_all add: gateStep_empty successes_def)
    with Cons.IH[OF _ Cons.prems(2)] Cons.prems(1) show ?thesis
      by (simp del: feed.simps split: option.splits)
  next
    case same
    with Cons.prems have h: "hits cur = 1"
      by (auto simp: armed_def split: if_splits)
    then have "feed cur (r # raws) = (cur\<lparr>hits := hits cur + 1\<rparr>, Some ?c)"
      using same by (simp add: gateStep_same)
    moreover have "held cur @ successes (r # raws) = [] @ [?c, ?c] @ successes raws"
      using same h by (simp add: held_def successes_def)
    then have "\<exists>pre post. held cur @ successes (r # raws) = pre @ [?c, ?c] @ post \<and>
                 distinct_adj (pre @ [?c])"
      by (intro exI[of _ "[]"] exI[of _ "successes raws"]) simp
    ultimately show ?thesis
      using same(1) Cons.prems(1) by (simp del: feed.simps)
  next
    case other
    let ?n = "\<lparr>value' = ?c, hits = 1\<rparr>"
    have f: "feed cur (r # raws) = feed ?n raws"
      using other by (simp add: gateStep_other)
    have a: "armed ?n" using other(1) by (simp add: armed_def)
    have s: "successes (r # raws) = held ?n @ successes raws"
      using other(1) by (simp add: successes_def held_def)
    from f Cons.prems(1) have fn: "feed ?n raws = (cur', out)" by simp
    show ?thesis
    proof (cases out)
      case None
      with Cons.IH[OF fn a] have "armed cur'" "distinct_adj (held ?n @ successes raws)" by simp_all
      moreover have "distinct_adj (held cur @ ?c # successes raws)"
        using \<open>distinct_adj (held ?n @ successes raws)\<close> other(2)
        by (simp add: held_def distinct_adj_Cons)
      ultimately show ?thesis using None s by (simp add: held_def)
    next
      case (Some v)
      with Cons.IH[OF fn a] obtain pre post where
        v: "v \<noteq> []" and e: "held ?n @ successes raws = pre @ [v, v] @ post"
        and da: "distinct_adj (pre @ [v])" by auto
      have hd: "hd (pre @ [v]) = ?c"
        using e by (cases pre) (simp_all add: held_def)
      have "distinct_adj (held cur @ pre @ [v])"
        using da other(2) hd by (simp add: held_def distinct_adj_Cons)
      moreover have "held cur @ successes (r # raws) = (held cur @ pre) @ [v, v] @ post"
        using s e by simp
      ultimately have "\<exists>pre post. held cur @ successes (r # raws) = pre @ [v, v] @ post \<and>
                 distinct_adj (pre @ [v])"
        by (intro exI[of _ "held cur @ pre"] exI[of _ post]) simp
      then show ?thesis using Some v by simp
    qed
  qed
qed

lemma armed_initialGate: "armed initialGate" "held initialGate = []"
  by (simp_all add: armed_def held_def initialGate_def)

text \<open>
  Claim C1, amended. Candidates whose cleaned form is empty never change the gate and are
  never confirmed, however often they are observed. When the gate confirms, the string it
  passes to \<open>onDetected\<close> is a non-empty cleaned string (digits and \<open>X\<close>, at most 13
  characters) that two successive successful decode attempts gave, the first such pair.
  The length is not examined: any non-empty cleaned string is confirmed by its second
  observation in a row.
\<close>

theorem empty_never_confirms:
  "((\<forall>r\<in>set raws. cleanISBN r = []) \<longrightarrow> feed cur raws = (cur, None)) \<and>
   (feed initialGate raws = (cur', Some v) \<longrightarrow>
      v \<noteq> [] \<and> length v \<le> 13 \<and> list_all isbnChar v \<and>
      (\<exists>pre post. successes raws = pre @ [v, v] @ post \<and> distinct_adj (pre @ [v]))) \<and>
   (feed initialGate raws = (cur', None) \<longrightarrow> distinct_adj (successes raws)) \<and>
   (cleanISBN r \<noteq> [] \<longrightarrow>
      feed initialGate [r, r] = (\<lparr>value' = cleanISBN r, hits = 2\<rparr>, Some (cleanISBN r)))"
proof (intro conjI impI)
  assume "\<forall>r\<in>set raws. cleanISBN r = []"
  then show "feed cur raws = (cur, None)" by (rule feed_all_empty)
next
  assume f: "feed initialGate raws = (cur', Some v)"
  from feed_armed [OF armed_initialGate(1) f]
  obtain pre post where v: "v \<noteq> []" and e: "successes raws = pre @ [v, v] @ post"
    and d: "distinct_adj (pre @ [v])"
    by (auto simp: armed_initialGate(2))
  from e have "v \<in> set (successes raws)" by simp
  then have "length v \<le> 13" "list_all isbnChar v" using successes_clean by blast+
  with v e d show "v \<noteq> []" "length v \<le> 13" "list_all isbnChar v"
    "\<exists>pre post. successes raws = pre @ [v, v] @ post \<and> distinct_adj (pre @ [v])"
    by blast+
next
  assume f: "feed initialGate raws = (cur', None)"
  from feed_armed [OF armed_initialGate(1) f]
  show "distinct_adj (successes raws)" by (simp add: armed_initialGate(2))
next
  assume c: "cleanISBN r \<noteq> []"
  have a: "gateStep initialGate r = (\<lparr>value' = cleanISBN r, hits = 1\<rparr>, None)"
    using c by (simp add: gateStep_other initialGate_def)
  have b: "gateStep \<lparr>value' = cleanISBN r, hits = 1\<rparr> r =
             (\<lparr>value' = cleanISBN r, hits = 2\<rparr>, Some (cleanISBN r))"
    using c by (simp add: gateStep_same)
  show "feed initialGate [r, r] = (\<lparr>value' = cleanISBN r, hits = 2\<rparr>, Some (cleanISBN r))"
    by (simp add: a b del: One_nat_def)
qed

lemma cleanISBN_12345: "cleanISBN ''12345'' = ''12345''"
  by code_simp

lemma cleanISBN_Nil: "cleanISBN [] = []"
  by code_simp

theorem empty_never_confirms_witness:
  "cleanISBN [] = [] \<and> feed initialGate [[], [], []] = (initialGate, None) \<and>
   cleanISBN ''12345'' \<noteq> [] \<and>
   feed initialGate [''12345'', ''12345''] = (\<lparr>value' = ''12345'', hits = 2\<rparr>, Some ''12345'') \<and>
   length ''12345'' \<le> 13 \<and> list_all isbnChar ''12345''"
  using empty_never_confirms [of "[[], [], []]" initialGate "\<lparr>value' = ''12345'', hits = 2\<rparr>" "''12345''" "''12345''"]
    empty_never_confirms [of "[''12345'', ''12345'']" initialGate "\<lparr>value' = ''12345'', hits = 2\<rparr>" "''12345''" "''12345''"]
  by (simp add: cleanISBN_12345 cleanISBN_Nil del: feed.simps)

section \<open>Properties of the double-precision arithmetic\<close>

lemma pow2_powi: "pow2 e = 2 powi e"
  by (simp add: pow2_def power_int_def inverse_eq_divide power_one_over)

lemma pow2_pos: "0 < pow2 e"
  by (simp add: pow2_powi)

lemma pow2_add: "pow2 (a + b) = pow2 a * pow2 b"
  by (simp add: pow2_powi power_int_add)

lemma pow2_Suc: "pow2 (e + 1) = 2 * pow2 e"
  by (simp add: pow2_add) (simp add: pow2_def)

lemma pow2_of_nat: "pow2 (int n) = 2 ^ n"
  by (simp add: pow2_def)

lemma pow2_neg_nat: "pow2 (- int k) = 1 / 2 ^ k"
  by (auto simp: pow2_def)

lemma pow2_mono: "a \<le> b \<Longrightarrow> pow2 a \<le> pow2 b"
  by (simp add: pow2_powi power_int_increasing)

lemma pow2_less_cancel: "pow2 a < pow2 b \<Longrightarrow> a < b"
  using pow2_mono [of b a] by (cases "a < b") auto

lemma ilog2_bounds:
  assumes "0 < a"
  shows "pow2 (ilog2 a) \<le> a \<and> a < pow2 (ilog2 a + 1)"
proof (cases "1 \<le> a")
  case True
  define n where "n = nat \<lfloor>a\<rfloor>"
  have fa: "1 \<le> \<lfloor>a\<rfloor>" using True by simp
  have n1: "0 < n" using fa by (simp add: n_def)
  have nf: "int n = \<lfloor>a\<rfloor>" using fa by (simp add: n_def)
  have "rat_of_int (int n) \<le> a" "a < rat_of_int (int n) + 1"
    unfolding nf using floor_correct [of a] by simp_all
  then have na: "rat_of_nat n \<le> a" "a < rat_of_nat n + 1" by simp_all
  from floorlog_bounds [OF n1, of 2]
  have b: "2 ^ (floorlog 2 n - 1) \<le> n" "n < 2 ^ floorlog 2 n" by simp_all
  have f1: "1 \<le> floorlog 2 n" using n1 by (simp add: floorlog_def)
  have e: "ilog2 a = int (floorlog 2 n - 1)"
    using True f1 by (simp add: ilog2_def n_def)
  have "rat_of_nat (2 ^ (floorlog 2 n - 1)) \<le> rat_of_nat n"
    using b(1) by (simp only: of_nat_le_iff)
  then have "2 ^ (floorlog 2 n - 1) \<le> rat_of_nat n" by simp
  moreover have "pow2 (ilog2 a) = 2 ^ (floorlog 2 n - 1)"
    by (simp only: e pow2_of_nat)
  ultimately have lo: "pow2 (ilog2 a) \<le> a" using na(1) by linarith
  have "n + 1 \<le> 2 ^ floorlog 2 n" using b(2) by simp
  then have "rat_of_nat (n + 1) \<le> rat_of_nat (2 ^ floorlog 2 n)"
    by (simp only: of_nat_le_iff)
  then have "rat_of_nat n + 1 \<le> 2 ^ floorlog 2 n" by simp
  moreover have "ilog2 a + 1 = int (floorlog 2 n)" using e f1 by simp
  then have "pow2 (ilog2 a + 1) = 2 ^ floorlog 2 n"
    by (simp only: pow2_of_nat)
  ultimately have "a < pow2 (ilog2 a + 1)" using na(2) by linarith
  with lo show ?thesis ..
next
  case False
  then have a1: "a < 1" by simp
  define c where "c = \<lceil>1 / a\<rceil>"
  define m where "m = nat (c - 1)"
  have inv1: "1 < 1 / a" using assms a1 by simp
  have ca: "1 / a \<le> of_int c" "of_int c - 1 < 1 / a"
    using ceiling_correct [of "1 / a"] by (simp_all add: c_def)
  have "1 < rat_of_int c" using inv1 ca(1) by linarith
  then have c2: "2 \<le> c" by simp
  have m1: "0 < m" using c2 by (simp add: m_def)
  have cm: "c = int m + 1" using c2 by (simp add: m_def)
  have cmr: "rat_of_int c = rat_of_nat m + 1" by (simp add: cm)
  from floorlog_bounds [OF m1, of 2]
  have b: "2 ^ (floorlog 2 m - 1) \<le> m" "m < 2 ^ floorlog 2 m" by simp_all
  have f1: "1 \<le> floorlog 2 m" using m1 by (simp add: floorlog_def)
  have e: "ilog2 a = - int (floorlog 2 m)"
    using a1 by (simp add: ilog2_def m_def c_def)
  have p: "pow2 (ilog2 a) = 1 / 2 ^ floorlog 2 m"
    by (simp only: e pow2_neg_nat)
  have "m + 1 \<le> 2 ^ floorlog 2 m" using b(2) by simp
  then have "rat_of_nat (m + 1) \<le> rat_of_nat (2 ^ floorlog 2 m)" by (simp only: of_nat_le_iff)
  then have "rat_of_nat m + 1 \<le> 2 ^ floorlog 2 m" by simp
  with ca(1) cmr have u: "1 / a \<le> 2 ^ floorlog 2 m" by linarith
  have lo: "pow2 (ilog2 a) \<le> a"
  proof -
    have "1 \<le> a * 2 ^ floorlog 2 m"
      using u assms by (simp add: field_simps)
    then show ?thesis unfolding p by (simp add: field_simps)
  qed
  have "ilog2 a + 1 = - int (floorlog 2 m - 1)" using e f1 by simp
  then have p1: "pow2 (ilog2 a + 1) = 1 / 2 ^ (floorlog 2 m - 1)"
    by (simp only: pow2_neg_nat)
  have "rat_of_nat (2 ^ (floorlog 2 m - 1)) \<le> rat_of_nat m"
    using b(1) by (simp only: of_nat_le_iff)
  then have "2 ^ (floorlog 2 m - 1) \<le> rat_of_nat m" by simp
  with ca(2) cmr have l: "2 ^ (floorlog 2 m - 1) < 1 / a" by linarith
  have "a < pow2 (ilog2 a + 1)"
  proof -
    have "a * 2 ^ (floorlog 2 m - 1) < 1"
      using l assms by (simp add: field_simps)
    then show ?thesis unfolding p1 by (simp add: field_simps)
  qed
  with lo show ?thesis ..
qed

lemma ilog2_unique:
  assumes "pow2 e \<le> a" "a < pow2 (e + 1)"
  shows "ilog2 a = e"
proof -
  have a0: "0 < a" using assms(1) pow2_pos [of e] by simp
  from ilog2_bounds [OF a0] have "pow2 (ilog2 a) < pow2 (e + 1)" "pow2 e < pow2 (ilog2 a + 1)"
    using assms by simp_all
  then have "ilog2 a < e + 1" "e < ilog2 a + 1" by (auto dest: pow2_less_cancel)
  then show ?thesis by simp
qed

lemma fl_eval:
  assumes "pow2 e \<le> x" "x < pow2 (e + 1)"
  shows "fl x = of_int (roundTiesToEven (x / pow2 (e - 52))) * pow2 (e - 52)"
proof -
  have "0 < x" using assms(1) pow2_pos [of e] by simp
  then show ?thesis by (simp add: fl_def ilog2_unique [OF assms] Let_def)
qed

lemma roundTiesToEven_bounds:
  "\<lfloor>m\<rfloor> \<le> roundTiesToEven m \<and> roundTiesToEven m \<le> \<lfloor>m\<rfloor> + 1 \<and>
   \<bar>of_int (roundTiesToEven m) - m\<bar> \<le> 1 / 2"
proof -
  define n where "n = \<lfloor>m\<rfloor>"
  have "of_int n \<le> m" "m < of_int n + 1"
    using floor_correct [of m] by (simp_all add: n_def)
  then show ?thesis
    unfolding roundTiesToEven_def Let_def n_def [symmetric]
    by (auto simp: abs_if)
qed

lemma fl_pos:
  assumes "0 < x"
  shows "fl x = of_int (roundTiesToEven (x / pow2 (ilog2 x - 52))) * pow2 (ilog2 x - 52)"
  using assms by (simp add: fl_def Let_def)

lemma pow2_sub52: "pow2 (e - 52) = pow2 e / 2 ^ 52"
proof -
  have "pow2 (e - 52) = pow2 (e + - int 52)" by simp
  also have "\<dots> = pow2 e * (1 / 2 ^ 52)"
    by (simp only: pow2_add pow2_neg_nat)
  finally show ?thesis by simp
qed

text \<open>The rounding error is at most half a unit in the last place.\<close>

lemma fl_error:
  assumes "0 < x"
  shows "\<bar>fl x - x\<bar> \<le> x / 2 ^ 53"
proof -
  define u where "u = pow2 (ilog2 x - 52)"
  define k where "k = roundTiesToEven (x / u)"
  have u0: "0 < u" by (simp add: u_def pow2_pos)
  have f: "fl x = of_int k * u" using assms by (simp add: fl_pos u_def k_def)
  have "\<bar>of_int k - x / u\<bar> \<le> 1 / 2"
    using roundTiesToEven_bounds [of "x / u"] by (simp add: k_def)
  then have "\<bar>of_int k - x / u\<bar> * u \<le> 1 / 2 * u"
    using u0 by (intro mult_right_mono) simp_all
  moreover have "\<bar>of_int k - x / u\<bar> * u = \<bar>of_int k * u - x\<bar>"
  proof -
    have "\<bar>of_int k - x / u\<bar> * u = \<bar>(of_int k - x / u) * u\<bar>"
      using u0 by (simp add: abs_mult)
    also have "(of_int k - x / u) * u = of_int k * u - x"
      using u0 by (simp add: field_simps)
    finally show ?thesis .
  qed
  ultimately have e1: "\<bar>fl x - x\<bar> \<le> u / 2" by (simp add: f)
  have "pow2 (ilog2 x) \<le> x" using ilog2_bounds [OF assms] by simp
  then have "u \<le> x / 2 ^ 52" by (simp add: u_def pow2_sub52 divide_right_mono)
  then have "u / 2 \<le> x / 2 ^ 53" by simp
  with e1 show ?thesis by linarith
qed

lemma ilog2_le_52:
  assumes "0 < x" "x < 2 ^ 53"
  shows "ilog2 x \<le> 52"
proof -
  have "pow2 (ilog2 x) \<le> x" using ilog2_bounds [OF assms(1)] by simp
  moreover have "(2::rat) ^ 53 = pow2 (int 53)" by (simp only: pow2_of_nat)
  ultimately have "pow2 (ilog2 x) < pow2 53" using assms(2) by simp
  then have "ilog2 x < 53" by (rule pow2_less_cancel)
  then show ?thesis by simp
qed

text \<open>Below \<open>2 ^ 53\<close> every integer is a double, and rounding never crosses one.\<close>

lemma fl_ge_int:
  assumes "0 < x" "x < 2 ^ 53" "of_int n \<le> x"
  shows "of_int n \<le> fl x"
proof -
  define j where "j = nat (52 - ilog2 x)"
  have e: "ilog2 x - 52 = - int j"
    using ilog2_le_52 [OF assms(1,2)] by (simp add: j_def)
  have u: "pow2 (ilog2 x - 52) = 1 / 2 ^ j" by (simp only: e pow2_neg_nat)
  define k where "k = roundTiesToEven (x * 2 ^ j)"
  have f: "fl x = of_int k / 2 ^ j"
    using assms(1) by (simp add: fl_pos u k_def)
  have "rat_of_int n * 2 ^ j \<le> x * 2 ^ j"
    using assms(3) by (intro mult_right_mono) simp_all
  then have "rat_of_int (n * 2 ^ j) \<le> x * 2 ^ j" by simp
  then have "n * 2 ^ j \<le> \<lfloor>x * 2 ^ j\<rfloor>" by (simp only: le_floor_iff)
  also have "\<dots> \<le> k" using roundTiesToEven_bounds [of "x * 2 ^ j"] by (simp add: k_def)
  finally have "rat_of_int (n * 2 ^ j) \<le> rat_of_int k" by (simp only: of_int_le_iff)
  then have "rat_of_int n * 2 ^ j \<le> rat_of_int k" by simp
  then have "rat_of_int n \<le> rat_of_int k / 2 ^ j" by (simp add: field_simps)
  then show ?thesis by (simp add: f)
qed

lemma fl_near_int:
  assumes "0 < x" "x < 2 ^ 53" "\<bar>x - of_int n\<bar> \<le> x / 2 ^ 54"
  shows "fl x = of_int n"
proof -
  define j where "j = nat (52 - ilog2 x)"
  have e: "ilog2 x - 52 = - int j"
    using ilog2_le_52 [OF assms(1,2)] by (simp add: j_def)
  have u: "pow2 (ilog2 x - 52) = 1 / 2 ^ j" by (simp only: e pow2_neg_nat)
  define k where "k = roundTiesToEven (x * 2 ^ j)"
  have f: "fl x = of_int k / 2 ^ j"
    using assms(1) by (simp add: fl_pos u k_def)
  have "x < pow2 (ilog2 x + 1)" using ilog2_bounds [OF assms(1)] by simp
  then have "x < 2 * pow2 (ilog2 x)" by (simp only: pow2_Suc)
  then have "x / 2 ^ 54 < pow2 (ilog2 x) / 2 ^ 53" by simp
  also have "\<dots> = pow2 (ilog2 x - 52) / 2" by (simp add: pow2_sub52)
  also have "\<dots> = 1 / 2 ^ j / 2" by (simp only: u)
  finally have d: "\<bar>x - of_int n\<bar> < 1 / 2 ^ j / 2" using assms(3) by linarith
  have "\<bar>x - of_int n\<bar> * 2 ^ j < 1 / 2 ^ j / 2 * 2 ^ j"
    using d by (intro mult_strict_right_mono) simp_all
  moreover have "\<bar>x - of_int n\<bar> * 2 ^ j = \<bar>x * 2 ^ j - of_int (n * 2 ^ j)\<bar>"
  proof -
    have "\<bar>x - of_int n\<bar> * 2 ^ j = \<bar>(x - of_int n) * 2 ^ j\<bar>" by (simp add: abs_mult)
    also have "(x - of_int n) * 2 ^ j = x * 2 ^ j - of_int (n * 2 ^ j)" by (simp add: algebra_simps)
    finally show ?thesis .
  qed
  ultimately have a: "\<bar>x * 2 ^ j - of_int (n * 2 ^ j)\<bar> < 1 / 2" by simp
  have b: "\<bar>of_int k - x * 2 ^ j\<bar> \<le> 1 / 2"
    using roundTiesToEven_bounds [of "x * 2 ^ j"] by (simp add: k_def)
  from a b have "\<bar>rat_of_int k - of_int (n * 2 ^ j)\<bar> < 1" by linarith
  then have "\<bar>rat_of_int (k - n * 2 ^ j)\<bar> < rat_of_int 1" by simp
  then have "\<bar>k - n * 2 ^ j\<bar> < 1" by (simp only: of_int_abs [symmetric] of_int_less_iff)
  then have "k = n * 2 ^ j" by simp
  then show ?thesis by (simp add: f)
qed

section \<open>Properties of the crop rectangle\<close>

lemma floor_rat_numeral: "\<lfloor>(numeral a :: rat) / numeral b\<rfloor> = numeral a div numeral b"
  by (metis floor_divide_of_int_eq of_int_numeral)

lemma fl_10_100: "fl (10 / 100) = 3602879701896397 / 36028797018963968"
  by (subst fl_eval [of "-4"]) (simp_all add: pow2_def roundTiesToEven_def Let_def floor_rat_numeral)

lemma fl_55_100: "fl (55 / 100) = 2476979795053773 / 4503599627370496"
  by (subst fl_eval [of "-1"]) (simp_all add: pow2_def roundTiesToEven_def Let_def floor_rat_numeral)

lemma fl_80_100: "fl (80 / 100) = 3602879701896397 / 4503599627370496"
  by (subst fl_eval [of "-1"]) (simp_all add: pow2_def roundTiesToEven_def Let_def floor_rat_numeral)

lemma fl_30_100: "fl (30 / 100) = 5404319552844595 / 18014398509481984"
  by (subst fl_eval [of "-2"]) (simp_all add: pow2_def roundTiesToEven_def Let_def floor_rat_numeral)

lemma percent_split:
  fixes w k :: nat
  defines "q \<equiv> w * k div 100" and "r \<equiv> w * k mod 100"
  shows "rat_of_nat w * (of_nat k / 100) = of_nat q + of_nat r / 100" "r < 100"
proof -
  have "w * k = 100 * q + r" by (simp add: q_def r_def)
  then have "rat_of_nat (w * k) = rat_of_nat (100 * q + r)" by simp
  then have "rat_of_nat w * of_nat k = 100 * of_nat q + of_nat r" by simp
  then show "rat_of_nat w * (of_nat k / 100) = of_nat q + of_nat r / 100" by simp
  show "r < 100" by (simp add: r_def)
qed

lemma floor_between:
  assumes "0 < x" "x < 2 ^ 33" "rat_of_nat q \<le> x" "x \<le> of_nat q + 99 / 100 + 1 / 2 ^ 22"
  shows "\<lfloor>fl x\<rfloor> = int q"
proof (rule floor_unique)
  have "x < 2 ^ 53" using assms(2) by simp
  from fl_ge_int [OF assms(1) this, of "int q"] assms(3)
  show "rat_of_int (int q) \<le> fl x" by simp
  have "\<bar>fl x - x\<bar> \<le> x / 2 ^ 53" by (rule fl_error [OF assms(1)])
  moreover have "x / 2 ^ 53 < 1 / 2 ^ 20" using assms(2) by simp
  ultimately have "fl x < x + 1 / 2 ^ 20" by linarith
  with assms(4) show "fl x < rat_of_int (int q) + 1" by simp
qed

lemma floor_fl_up:
  fixes w k :: nat and c :: rat
  assumes "w < 2 ^ 32" "0 < k" "k \<le> 100"
    and "of_nat k / 100 \<le> c" "c \<le> of_nat k / 100 + 1 / 2 ^ 54"
  shows "\<lfloor>fl (of_nat w * c)\<rfloor> = int (w * k div 100)"
proof (cases "w = 0")
  case True
  then show ?thesis by (simp add: fl_def)
next
  case False
  define q where "q = w * k div 100"
  define r where "r = w * k mod 100"
  define x where "x = rat_of_nat w * c"
  define t where "t = rat_of_nat w * (of_nat k / 100)"
  have w0: "0 < rat_of_nat w" using False by simp
  have wb: "rat_of_nat w < 2 ^ 32"
  proof -
    have "rat_of_nat w < rat_of_nat (2 ^ 32)" using assms(1) by (simp only: of_nat_less_iff)
    then show ?thesis by simp
  qed
  have t: "t = of_nat q + of_nat r / 100" and r: "r < 100"
    using percent_split [of w k] by (simp_all add: t_def q_def r_def)
  have rr: "rat_of_nat r \<le> 99"
  proof -
    have "r \<le> 99" using r by simp
    then have "rat_of_nat r \<le> rat_of_nat 99" by (simp only: of_nat_le_iff)
    then show ?thesis by simp
  qed
  have "0 < rat_of_nat k / 100" using assms(2) by simp
  with assms(4) have c0: "0 < c" by linarith
  have c1: "c \<le> 2"
  proof -
    have "rat_of_nat k \<le> rat_of_nat 100" using assms(3) by (simp only: of_nat_le_iff)
    then have "rat_of_nat k / 100 \<le> 1" by simp
    with assms(5) show ?thesis by simp
  qed
  have x0: "0 < x" using w0 c0 by (simp add: x_def)
  have "x \<le> rat_of_nat w * 2" unfolding x_def using c1 w0 by (intro mult_left_mono) simp_all
  then have xb: "x < 2 ^ 33" using wb by simp
  have lo: "t \<le> x" unfolding t_def x_def using assms(4) w0 by (intro mult_left_mono) simp_all
  have "x \<le> rat_of_nat w * (of_nat k / 100 + 1 / 2 ^ 54)"
    unfolding x_def using assms(5) w0 by (intro mult_left_mono) simp_all
  also have "\<dots> = t + rat_of_nat w / 2 ^ 54" by (simp add: t_def algebra_simps)
  finally have hi: "x \<le> t + rat_of_nat w / 2 ^ 54" .
  have "rat_of_nat w / 2 ^ 54 < 1 / 2 ^ 22" using wb by simp
  with hi t rr have "x \<le> of_nat q + 99 / 100 + 1 / 2 ^ 22" by simp
  moreover have "rat_of_nat q \<le> x" using lo t by simp
  ultimately have "\<lfloor>fl x\<rfloor> = int q" using x0 xb by (intro floor_between) simp_all
  then show ?thesis by (simp add: x_def q_def)
qed

lemma floor_fl_down:
  fixes w k :: nat and c :: rat
  assumes "w < 2 ^ 32" "0 < c" "k \<le> 100"
    and "c \<le> of_nat k / 100" "of_nat k / 100 - c \<le> c / 2 ^ 54" "of_nat k / 100 - c \<le> 1 / 2 ^ 54"
  shows "\<lfloor>fl (of_nat w * c)\<rfloor> = int (w * k div 100)"
proof (cases "w = 0")
  case True
  then show ?thesis by (simp add: fl_def)
next
  case False
  define q where "q = w * k div 100"
  define r where "r = w * k mod 100"
  define x where "x = rat_of_nat w * c"
  define t where "t = rat_of_nat w * (of_nat k / 100)"
  have w0: "0 < rat_of_nat w" using False by simp
  have wb: "rat_of_nat w < 2 ^ 32"
  proof -
    have "rat_of_nat w < rat_of_nat (2 ^ 32)" using assms(1) by (simp only: of_nat_less_iff)
    then show ?thesis by simp
  qed
  have t: "t = of_nat q + of_nat r / 100" and r: "r < 100"
    using percent_split [of w k] by (simp_all add: t_def q_def r_def)
  have rr: "rat_of_nat r \<le> 99"
  proof -
    have "r \<le> 99" using r by simp
    then have "rat_of_nat r \<le> rat_of_nat 99" by (simp only: of_nat_le_iff)
    then show ?thesis by simp
  qed
  have c1: "c \<le> 2"
  proof -
    have "rat_of_nat k \<le> rat_of_nat 100" using assms(3) by (simp only: of_nat_le_iff)
    then have "rat_of_nat k / 100 \<le> 1" by simp
    with assms(4) show ?thesis by simp
  qed
  have x0: "0 < x" using w0 assms(2) by (simp add: x_def)
  have xt: "t - x = rat_of_nat w * (of_nat k / 100 - c)" by (simp add: t_def x_def algebra_simps)
  have d0: "0 \<le> t - x" unfolding xt using assms(4) w0 by simp
  have "t - x \<le> rat_of_nat w * (c / 2 ^ 54)"
    unfolding xt using assms(5) w0 by (intro mult_left_mono) simp_all
  then have d1: "t - x \<le> x / 2 ^ 54" by (simp add: x_def)
  have "t - x \<le> rat_of_nat w * (1 / 2 ^ 54)"
    unfolding xt using assms(6) w0 by (intro mult_left_mono) simp_all
  also have "\<dots> < 1 / 2 ^ 22" using wb by simp
  finally have d2: "t - x < 1 / 2 ^ 22" .
  have "x \<le> rat_of_nat w * 2" unfolding x_def using c1 w0 by (intro mult_left_mono) simp_all
  then have xb: "x < 2 ^ 33" using wb by simp
  have "\<lfloor>fl x\<rfloor> = int q"
  proof (cases "r = 0")
    case True
    then have "t = rat_of_int (int q)" using t by simp
    with d0 d1 have "\<bar>x - rat_of_int (int q)\<bar> \<le> x / 2 ^ 54" by simp
    moreover have "x < 2 ^ 53" using xb by simp
    ultimately have "fl x = rat_of_int (int q)" using x0 by (intro fl_near_int)
    then show ?thesis by simp
  next
    case False
    then have "1 \<le> r" by simp
    then have "rat_of_nat 1 \<le> rat_of_nat r" by (simp only: of_nat_le_iff)
    then have "1 / 100 \<le> rat_of_nat r / 100" by simp
    with t d2 have "rat_of_nat q \<le> x" by simp
    moreover have "x \<le> of_nat q + 99 / 100 + 1 / 2 ^ 22" using d0 t rr by simp
    ultimately show ?thesis using x0 xb by (intro floor_between) simp_all
  qed
  then show ?thesis by (simp add: x_def q_def)
qed

lemma cx_exact: "w < 2 ^ 32 \<Longrightarrow> cx w = int (w * 10 div 100)"
  unfolding cx_def fmul_def fl_10_100
  by (rule floor_fl_up) simp_all

lemma cy_exact: "h < 2 ^ 32 \<Longrightarrow> cy h = int (h * 55 div 100)"
  unfolding cy_def fmul_def fl_55_100
  by (rule floor_fl_up) simp_all

lemma cw_exact: "w < 2 ^ 32 \<Longrightarrow> cw w = int (w * 80 div 100)"
  unfolding cw_def fmul_def fl_80_100
  by (rule floor_fl_up) simp_all

lemma ch_exact: "h < 2 ^ 32 \<Longrightarrow> ch h = int (h * 30 div 100)"
  unfolding ch_def fmul_def fl_30_100
  by (rule floor_fl_down) simp_all

lemma floor_nat_div_numeral: "\<lfloor>rat_of_nat m / numeral n\<rfloor> = int (m div numeral n)"
  using floor_divide_of_nat_eq [of m "numeral n", where ?'a = rat] by simp

lemma floor_mult_nat_div_numeral:
  "\<lfloor>numeral a * rat_of_nat m / numeral n\<rfloor> = int (numeral a * m div numeral n)"
  using floor_divide_of_nat_eq [of "numeral a * m" "numeral n", where ?'a = rat] by simp

text \<open>
  Claim C8, amended. The corner and the size of the crop rectangle are the percentages of
  the claim rounded down to whole pixels, for every width and height that \<open>videoWidth\<close>
  and \<open>videoHeight\<close> (unsigned 32-bit numbers) can take; for a frame of 1000 by 800 the
  rectangle has its corner at (100, 440) and size 800 by 240.
\<close>

theorem cropRect_floor:
  assumes "w < 2 ^ 32" "h < 2 ^ 32"
  shows "cropRect w h =
           (case spec_cropRect w h of ((x, y), (a, b)) \<Rightarrow> ((\<lfloor>x\<rfloor>, \<lfloor>y\<rfloor>), (\<lfloor>a\<rfloor>, \<lfloor>b\<rfloor>)))"
  using assms
  by (simp add: cropRect_def spec_cropRect_def cx_exact cy_exact cw_exact ch_exact
      floor_nat_div_numeral floor_mult_nat_div_numeral)

theorem cropRect_floor_witness:
  "(1000::nat) < 2 ^ 32 \<and> (800::nat) < 2 ^ 32 \<and> cropRect 1000 800 = ((100, 440), (800, 240))"
  using cropRect_floor [of 1000 800] by (simp add: spec_cropRect_def)

text \<open>
  Claim C8, as the specification states it, fails where a percentage is not a whole
  number: for a frame of 15 by 10 the corner is (1, 5), not (1.5, 5.5).
\<close>

theorem cropRect_not_exact_percent:
  "cropRect 15 10 = ((1, 5), (12, 3)) \<and> spec_cropRect 15 10 = ((3 / 2, 11 / 2), (12, 3)) \<and>
   rat_of_int (fst (fst (cropRect 15 10))) \<noteq> fst (fst (spec_cropRect 15 10))"
  by (simp add: cropRect_def spec_cropRect_def cx_exact cy_exact cw_exact ch_exact)


section \<open>Properties of the binarization\<close>

lemma fl_299_1000: "fl (299 / 1000) = 5386305154335113 / 18014398509481984"
  by (subst fl_eval [of "-2"]) (simp_all add: pow2_def roundTiesToEven_def Let_def floor_rat_numeral)

lemma fl_587_1000: "fl (587 / 1000) = 2643612981266481 / 4503599627370496"
  by (subst fl_eval [of "-1"]) (simp_all add: pow2_def roundTiesToEven_def Let_def floor_rat_numeral)

lemma fl_114_1000: "fl (114 / 1000) = 8214565720323785 / 72057594037927936"
  by (subst fl_eval [of "-4"]) (simp_all add: pow2_def roundTiesToEven_def Let_def floor_rat_numeral)

lemma fl_nonneg: 
  assumes "0 \<le> x" "x < 2 ^ 53"
  shows "0 \<le> fl x"
proof (cases "x = 0")
  case True
  then show ?thesis by (simp add: fl_def)
next
  case False
  with assms have "0 < x" by simp
  from fl_ge_int [OF this assms(2), of 0] this show ?thesis by simp
qed

lemma fl_small_error:
  assumes "0 \<le> x" "x \<le> 256"
  shows "\<bar>fl x - x\<bar> \<le> 1 / 2 ^ 45"
proof (cases "x = 0")
  case True
  then show ?thesis by (simp add: fl_def)
next
  case False
  with assms have "0 < x" by simp
  then have "\<bar>fl x - x\<bar> \<le> x / 2 ^ 53" by (rule fl_error)
  moreover have "x / 2 ^ 53 \<le> 1 / 2 ^ 45" using assms(2) by simp
  ultimately show ?thesis by linarith
qed

text \<open>One product of a byte with a weight: the double is within \<open>3 / 2 ^ 46\<close> of the exact product.\<close>

lemma fl_small_error':
  assumes "0 \<le> x" "x \<le> 256"
  shows "\<bar>fl x - x\<bar> \<le> 2 * ulp46"
  using fl_small_error [OF assms] by (simp add: ulp46_def)

lemma byte_product:
  fixes n :: nat and c k :: rat
  assumes "n \<le> 255" "0 \<le> c" "c \<le> 1" "\<bar>c - k\<bar> \<le> 1 / 2 ^ 54"
  shows "\<bar>fl (of_nat n * c) - of_nat n * k\<bar> \<le> 3 * ulp46 \<and> 0 \<le> fl (of_nat n * c)"
proof -
  define x where "x = rat_of_nat n * c"
  have n0: "0 \<le> rat_of_nat n" by simp
  have "rat_of_nat n \<le> rat_of_nat 255" using assms(1) by (simp only: of_nat_le_iff)
  then have n1: "rat_of_nat n \<le> 255" by simp
  have x0: "0 \<le> x" using assms(2) by (simp add: x_def)
  have "x \<le> 255 * 1" unfolding x_def using n1 assms(2,3) n0 by (intro mult_mono) simp_all
  then have x1: "x \<le> 256" by simp
  have e1: "\<bar>fl x - x\<bar> \<le> 2 * ulp46" using x0 x1 by (rule fl_small_error')
  have "\<bar>x - of_nat n * k\<bar> = rat_of_nat n * \<bar>c - k\<bar>"
    by (simp add: x_def abs_mult right_diff_distrib [symmetric])
  also have "\<dots> \<le> 255 * (1 / 2 ^ 54)"
    using n1 assms(4) by (intro mult_mono) simp_all
  also have "\<dots> \<le> ulp46" by (simp add: ulp46_def)
  finally have e2: "\<bar>x - of_nat n * k\<bar> \<le> ulp46" .
  have "\<bar>fl x - of_nat n * k\<bar> \<le> 3 * ulp46" using e1 e2 by linarith
  moreover have "0 \<le> fl x" using x0 x1 by (intro fl_nonneg) simp_all
  ultimately show ?thesis by (simp add: x_def)
qed

text \<open>
  The double that the loop computes before truncation is within \<open>13 / 2 ^ 46\<close> of the
  exact luma \<open>(299 R + 587 G + 114 B) / 1000\<close>.
\<close>

lemma weighted_error:
  assumes "r \<le> 255" "g \<le> 255" "b \<le> 255"
  shows "\<bar>weighted r g b - spec_luma r g b\<bar> \<le> 13 * ulp46 \<and> 0 \<le> weighted r g b"
proof -
  define p1 where "p1 = fl (rat_of_nat r * fl (299 / 1000))"
  define p2 where "p2 = fl (rat_of_nat g * fl (587 / 1000))"
  define p3 where "p3 = fl (rat_of_nat b * fl (114 / 1000))"
  define a1 where "a1 = rat_of_nat r * (299 / 1000)"
  define a2 where "a2 = rat_of_nat g * (587 / 1000)"
  define a3 where "a3 = rat_of_nat b * (114 / 1000)"
  have u: "0 < ulp46" "ulp46 < 1 / 100" by (simp_all add: ulp46_def)
  have "rat_of_nat r \<le> rat_of_nat 255" "rat_of_nat g \<le> rat_of_nat 255" "rat_of_nat b \<le> rat_of_nat 255"
    using assms by (simp_all only: of_nat_le_iff)
  then have bytes: "rat_of_nat r \<le> 255" "rat_of_nat g \<le> 255" "rat_of_nat b \<le> 255" by simp_all
  have A: "0 \<le> a1" "0 \<le> a2" "0 \<le> a3" "a1 + a2 + a3 \<le> 255"
    using bytes by (simp_all add: a1_def a2_def a3_def)
  have P1: "\<bar>p1 - a1\<bar> \<le> 3 * ulp46 \<and> 0 \<le> p1"
    unfolding p1_def a1_def fl_299_1000 by (rule byte_product [OF assms(1)]) simp_all
  have P2: "\<bar>p2 - a2\<bar> \<le> 3 * ulp46 \<and> 0 \<le> p2"
    unfolding p2_def a2_def fl_587_1000 by (rule byte_product [OF assms(2)]) simp_all
  have P3: "\<bar>p3 - a3\<bar> \<le> 3 * ulp46 \<and> 0 \<le> p3"
    unfolding p3_def a3_def fl_114_1000 by (rule byte_product [OF assms(3)]) simp_all
  define s1 where "s1 = fl (p1 + p2)"
  define y where "y = fl (s1 + p3)"
  have s1b: "0 \<le> p1 + p2" "p1 + p2 \<le> 256" using P1 P2 A u by linarith+
  have S1: "\<bar>s1 - (p1 + p2)\<bar> \<le> 2 * ulp46" "0 \<le> s1"
    unfolding s1_def using s1b by (simp_all add: fl_small_error' fl_nonneg)
  have yb: "0 \<le> s1 + p3" "s1 + p3 \<le> 256" using S1 P1 P2 P3 A u by linarith+
  have Y: "\<bar>y - (s1 + p3)\<bar> \<le> 2 * ulp46" "0 \<le> y"
    unfolding y_def using yb by (simp_all add: fl_small_error' fl_nonneg)
  have "\<bar>y - (a1 + a2 + a3)\<bar> \<le> 13 * ulp46" using Y(1) S1(1) P1 P2 P3 by linarith
  moreover have "weighted r g b = y"
    by (simp only: weighted_def fadd_def fmul_def y_def s1_def p1_def p2_def p3_def)
  moreover have "spec_luma r g b = a1 + a2 + a3"
    by (simp add: spec_luma_def a1_def a2_def a3_def)
  ultimately show ?thesis using Y(2) by simp
qed

lemma toInt32_floor: 
  assumes "0 \<le> x" "x < 2 ^ 31"
  shows "toInt32 x = \<lfloor>x\<rfloor>"
proof -
  have "0 \<le> \<lfloor>x\<rfloor>" using assms(1) by simp
  moreover have "\<lfloor>x\<rfloor> < 2 ^ 31" using assms(2) by (simp add: floor_less_iff)
  ultimately show ?thesis using assms(1) by (simp add: toInt32_def Let_def)
qed

lemma luma_split:
  fixes r g b S q m :: nat
  assumes "S = 299 * r + 587 * g + 114 * b" "q = S div 1000" "m = S mod 1000"
  shows "spec_luma r g b = of_nat q + of_nat m / 1000"
proof -
  have "S = 1000 * q + m" by (simp add: assms(2,3))
  then have "rat_of_nat S = rat_of_nat (1000 * q + m)" by (rule arg_cong)
  then have "rat_of_nat S = 1000 * of_nat q + of_nat m" by simp
  moreover have "spec_luma r g b = rat_of_nat S / 1000"
    by (simp add: spec_luma_def assms(1))
  ultimately show ?thesis by simp
qed

lemma grey_exact:
  fixes r g b :: nat
  defines "S \<equiv> 299 * r + 587 * g + 114 * b"
  assumes "r \<le> 255" "g \<le> 255" "b \<le> 255"
  shows "(S mod 1000 \<noteq> 0 \<longrightarrow> grey r g b = int (S div 1000)) \<and>
         (grey r g b = int (S div 1000) \<or> grey r g b = int (S div 1000) - 1)"
proof -
  define y where "y = weighted r g b"
  define q where "q = S div 1000"
  define m where "m = S mod 1000"
  define T where "T = spec_luma r g b"
  have u: "0 < ulp46" "13 * ulp46 < 1 / 1000" by (simp_all add: ulp46_def)
  have E: "\<bar>y - T\<bar> \<le> 13 * ulp46" "0 \<le> y"
    using weighted_error [OF assms(2-4)] by (simp_all add: y_def T_def)
  have L: "T = of_nat q + of_nat m / 1000"
    unfolding T_def by (rule luma_split) (simp_all add: S_def q_def m_def)
  have "m < 1000" by (simp add: m_def)
  then have "m \<le> 999" by simp
  then have "rat_of_nat m \<le> rat_of_nat 999" by (simp only: of_nat_le_iff)
  then have m1: "rat_of_nat m / 1000 \<le> 999 / 1000" by simp
  have m0: "0 \<le> rat_of_nat m / 1000" by simp
  have "S \<le> 299 * 255 + 587 * 255 + 114 * 255"
    unfolding S_def using assms(2-4) by (intro add_mono mult_le_mono) simp_all
  then have "q \<le> 255" by (simp add: q_def)
  then have "rat_of_nat q \<le> rat_of_nat 255" by (simp only: of_nat_le_iff)
  then have q1: "rat_of_nat q \<le> 255" by simp
  have "y < 256" using E(1) L m1 q1 u by linarith
  then have yb: "y < 2 ^ 31" by simp
  have g: "grey r g b = \<lfloor>y\<rfloor>"
    using toInt32_floor [OF E(2) yb] by (simp add: grey_def y_def)
  have lo: "rat_of_int (int q - 1) \<le> y" using E(1) L m0 u by (simp; linarith)
  have hi: "y < rat_of_int (int q + 1)" using E(1) L m1 u by (simp; linarith)
  have "int q - 1 \<le> \<lfloor>y\<rfloor>" using lo by (simp only: le_floor_iff)
  moreover have "\<lfloor>y\<rfloor> < int q + 1" using hi by (simp only: floor_less_iff)
  ultimately have two: "\<lfloor>y\<rfloor> = int q \<or> \<lfloor>y\<rfloor> = int q - 1" by linarith
  have "\<lfloor>y\<rfloor> = int q" if "m \<noteq> 0"
  proof -
    from that have "1 \<le> m" by simp
    then have "rat_of_nat 1 \<le> rat_of_nat m" by (simp only: of_nat_le_iff)
    then have "1 / 1000 \<le> rat_of_nat m / 1000" by simp
    with E(1) L u have "rat_of_int (int q) \<le> y" by (simp; linarith)
    then have "int q \<le> \<lfloor>y\<rfloor>" by (simp only: le_floor_iff)
    with two show ?thesis by simp
  qed
  with two g show ?thesis by (simp add: q_def m_def)
qed

lemma binarize_length: "length (binarize d) = length d"
  by (induction d rule: binarize.induct) (simp_all add: Let_def)

lemma binarize_pixel:
  "4 * k + 3 < length d \<Longrightarrow>
   binarize d ! (4 * k) = threshold (d ! (4 * k)) (d ! (4 * k + 1)) (d ! (4 * k + 2)) \<and>
   binarize d ! (4 * k + 1) = threshold (d ! (4 * k)) (d ! (4 * k + 1)) (d ! (4 * k + 2)) \<and>
   binarize d ! (4 * k + 2) = threshold (d ! (4 * k)) (d ! (4 * k + 1)) (d ! (4 * k + 2)) \<and>
   binarize d ! (4 * k + 3) = d ! (4 * k + 3)"
proof (induction d arbitrary: k rule: binarize.induct)
  case (1 r g b a rest)
  show ?case
  proof (cases k)
    case 0
    then show ?thesis by (simp add: Let_def)
  next
    case (Suc j)
    then have "4 * j + 3 < length rest" using "1.prems" by simp
    from "1.IH" [OF refl this] show ?thesis
      by (simp add: Suc Let_def numeral_eq_Suc)
  qed
qed simp_all

lemma threshold_by_luma:
  assumes "r \<le> 255" "g \<le> 255" "b \<le> 255"
  shows "(161 < spec_luma r g b \<longrightarrow> threshold r g b = 255) \<and>
         (spec_luma r g b < 161 \<longrightarrow> threshold r g b = 0)"
proof -
  define S where "S = 299 * r + 587 * g + 114 * b"
  have L: "spec_luma r g b = rat_of_nat S / 1000"
    by (simp add: spec_luma_def S_def)
  from grey_exact [OF assms]
  have G: "S mod 1000 \<noteq> 0 \<longrightarrow> grey r g b = int (S div 1000)"
    "grey r g b = int (S div 1000) \<or> grey r g b = int (S div 1000) - 1"
    by (simp_all add: S_def)
  have "threshold r g b = 255" if "161 < spec_luma r g b"
  proof -
    from that have "rat_of_nat 161000 < rat_of_nat S" by (simp add: L)
    then have "161000 < S" by (simp only: of_nat_less_iff)
    then have "160 < grey r g b" using G by (cases "S mod 1000 = 0") auto
    then show ?thesis by (simp add: threshold_def)
  qed
  moreover have "threshold r g b = 0" if "spec_luma r g b < 161"
  proof -
    from that have "rat_of_nat S < rat_of_nat 161000" by (simp add: L)
    then have "S < 161000" by (simp only: of_nat_less_iff)
    then have "grey r g b \<le> 160" using G(2) by auto
    then show ?thesis by (simp add: threshold_def)
  qed
  ultimately show ?thesis by simp
qed

text \<open>A pixel whose exact luma is 161, and whose computed sum falls just below 161.\<close>

lemma weighted_11_251_91: "weighted 11 251 91 = 5664683906301951 / 35184372088832"
proof -
  have p1: "fmul (of_nat 11) (fl (299 / 1000)) = 1851542396802695 / 562949953421312"
    unfolding fmul_def fl_299_1000
    by (subst fl_eval [of 1]) (simp_all add: pow2_def roundTiesToEven_def Let_def floor_rat_numeral)
  have p2: "fmul (of_nat 251) (fl (587 / 1000)) = 323997489403265 / 2199023255552"
    unfolding fmul_def fl_587_1000
    by (subst fl_eval [of 7]) (simp_all add: pow2_def roundTiesToEven_def Let_def floor_rat_numeral)
  have p3: "fmul (of_nat 91) (fl (114 / 1000)) = 5840042816792691 / 562949953421312"
    unfolding fmul_def fl_114_1000
    by (subst fl_eval [of 3]) (simp_all add: pow2_def roundTiesToEven_def Let_def floor_rat_numeral)
  have s1: "fadd (1851542396802695 / 562949953421312) (323997489403265 / 2199023255552) =
            662460153781551 / 4398046511104"
    unfolding fadd_def
    by (subst fl_eval [of 7]) (simp_all add: pow2_def roundTiesToEven_def Let_def floor_rat_numeral)
  have y: "fadd (662460153781551 / 4398046511104) (5840042816792691 / 562949953421312) =
           5664683906301951 / 35184372088832"
    unfolding fadd_def
    by (subst fl_eval [of 7]) (simp_all add: pow2_def roundTiesToEven_def Let_def floor_rat_numeral)
  show ?thesis
    by (simp only: weighted_def p1 p2 p3 s1 y)
qed

lemma grey_11_251_91: "grey 11 251 91 = 160"
  by (simp add: grey_def weighted_11_251_91 toInt32_def floor_rat_numeral)

text \<open>
  Claim C7, as the specification states it, fails. The pixel \<open>(161, 160, 160)\<close> has luma
  \<open>160.299\<close>, above 160, and is written black; the pixel \<open>(11, 251, 91)\<close> has luma 161
  exactly, and is written black as well, since its double-precision sum is just below 161.
\<close>

theorem threshold_not_luma_above_160:
  "spec_luma 161 160 160 = 160299 / 1000 \<and> spec_threshold 161 160 160 = 255 \<and>
   threshold 161 160 160 = 0 \<and>
   spec_luma 11 251 91 = 161 \<and> spec_threshold 11 251 91 = 255 \<and> threshold 11 251 91 = 0"
proof -
  have "spec_luma 161 160 160 < 161" by (simp add: spec_luma_def)
  with threshold_by_luma [of 161 160 160] have "threshold 161 160 160 = 0" by simp
  then show ?thesis
    by (simp add: spec_luma_def spec_threshold_def threshold_def grey_11_251_91)
qed

text \<open>
  Claim C7, amended. For every pixel of the buffer the loop computes the weighted sum in
  double precision, truncates it to an integer \<open>g\<close>, and writes 255 to the three colour
  channels when \<open>g > 160\<close>, else 0; the alpha channel and the length of the buffer are
  left as they are. The computed sum is
  within \<open>13 / 2 ^ 46\<close> of the exact luma, so the pixel is white when its luma exceeds
  161 and black when its luma is below 161.
\<close>

theorem binarize_truncated_luma:
  assumes "4 * k + 3 < length d" "list_all (\<lambda>x. x \<le> 255) d"
  shows "let r = d ! (4 * k); g = d ! (4 * k + 1); b = d ! (4 * k + 2); v = threshold r g b
         in length (binarize d) = length d \<and>
            binarize d ! (4 * k) = v \<and> binarize d ! (4 * k + 1) = v \<and>
            binarize d ! (4 * k + 2) = v \<and> binarize d ! (4 * k + 3) = d ! (4 * k + 3) \<and>
            v = (if 160 < toInt32 (weighted r g b) then 255 else 0) \<and>
            \<bar>weighted r g b - spec_luma r g b\<bar> \<le> 13 / 2 ^ 46 \<and>
            (161 < spec_luma r g b \<longrightarrow> v = 255) \<and> (spec_luma r g b < 161 \<longrightarrow> v = 0)"
proof -
  define r where "r = d ! (4 * k)"
  define g where "g = d ! (4 * k + 1)"
  define b where "b = d ! (4 * k + 2)"
  have bytes: "r \<le> 255" "g \<le> 255" "b \<le> 255"
    using assms by (simp_all add: list_all_length r_def g_def b_def)
  have "\<bar>weighted r g b - spec_luma r g b\<bar> \<le> 13 / 2 ^ 46"
    using weighted_error [OF bytes] by (simp add: ulp46_def)
  moreover have "threshold r g b = (if 160 < toInt32 (weighted r g b) then 255 else 0)"
    by (simp add: threshold_def grey_def)
  ultimately show ?thesis
    using binarize_pixel [OF assms(1)] threshold_by_luma [OF bytes]
    by (simp add: Let_def r_def g_def b_def binarize_length)
qed

theorem binarize_truncated_luma_witness:
  "4 * 1 + 3 < length [162, 161, 161, 255, 161, 160, 160, 7 :: nat] \<and>
   list_all (\<lambda>x. x \<le> 255) [162, 161, 161, 255, 161, 160, 160, 7 :: nat] \<and>
   spec_luma 162 161 161 = 161299 / 1000 \<and> spec_luma 161 160 160 = 160299 / 1000 \<and>
   binarize [162, 161, 161, 255, 161, 160, 160, 7] = [255, 255, 255, 255, 0, 0, 0, 7]"
proof -
  let ?d = "[162, 161, 161, 255, 161, 160, 160, 7 :: nat]"
  have a: "4 * 0 + 3 < length ?d" "4 * 1 + 3 < length ?d" "list_all (\<lambda>x. x \<le> 255) ?d"
    by simp_all
  have l: "spec_luma 162 161 161 = 161299 / 1000" "spec_luma 161 160 160 = 160299 / 1000"
    by (simp_all add: spec_luma_def)
  from binarize_truncated_luma [OF a(1) a(3)] l(1) have "threshold 162 161 161 = 255"
    by (simp add: Let_def)
  moreover from binarize_truncated_luma [OF a(2) a(3)] l(2) have "threshold 161 160 160 = 0"
    by (simp add: Let_def)
  ultimately show ?thesis using l by (simp add: Let_def)
qed

section \<open>Properties of the camera acquisition\<close>

lemma getBestVideoStream_cases:
  "getBestVideoStream md =
     (case getUserMedia md attempt1 of
        Inr s \<Rightarrow> ([attempt1], Inr s)
      | Inl e1 \<Rightarrow>
         (case pickedDevice md of
            None \<Rightarrow> ([attempt1, attempt3], getUserMedia md attempt3)
          | Some devId \<Rightarrow>
             (case getUserMedia md (attempt2 devId) of
                Inr s \<Rightarrow> ([attempt1, attempt2 devId], Inr s)
              | Inl e2 \<Rightarrow> ([attempt1, attempt2 devId, attempt3], getUserMedia md attempt3))))"
  by (simp add: getBestVideoStream_def pickedDevice_def Let_def split: sum.splits option.splits)

lemma pickBestCamera_cases:
  "pickBestCamera devices =
     (case find (\<lambda>d. testBackRearEnvironment (label d)) devices of
        Some d \<Rightarrow> if deviceId d = [] then None else Some (deviceId d)
      | None \<Rightarrow>
         (case devices of
            [] \<Rightarrow> None
          | d # _ \<Rightarrow> if deviceId d = [] then None else Some (deviceId d)))"
  by (simp add: pickBestCamera_def Let_def split: option.splits list.splits)

text \<open>
  Claim C9, amended. \<open>getBestVideoStream\<close> sends at most three requests, in this order,
  and stops at the first that succeeds: (1) the environment-facing camera as an ideal
  \<open>facingMode\<close>, with ideal resolution 1280 by 720; (2) when the list of video inputs gives
  a device identity, that device by exact \<open>deviceId\<close>, with the same ideal resolution and
  no \<open>facingMode\<close>; (3) any camera, \<open>video: true\<close>. Its result is the answer to the last
  request sent, every earlier request was rejected, and it rejects only when the third
  request has been sent and rejected. The device of the second strategy is the first video
  input whose label matches the pattern, and the first video input when no label matches;
  an empty identity, or an empty list, skips the strategy.
\<close>

theorem getBestVideoStream_strategies:
  assumes "getBestVideoStream md = (sent, res)"
  shows "(sent = [attempt1] \<or>
          (\<exists>devId. pickedDevice md = Some devId \<and>
             (sent = [attempt1, attempt2 devId] \<or> sent = [attempt1, attempt2 devId, attempt3])) \<or>
          (pickedDevice md = None \<and> sent = [attempt1, attempt3])) \<and>
         res = getUserMedia md (last sent) \<and>
         (\<forall>q\<in>set (butlast sent). \<exists>e. getUserMedia md q = Inl e) \<and>
         ((\<exists>e. res = Inl e) \<longrightarrow> last sent = attempt3) \<and>
         videoOf attempt1 =
           Video \<lparr>facingModeIdeal = Some ''environment'', deviceIdExact = None,
                  widthIdeal = Some 1280, heightIdeal = Some 720\<rparr> \<and>
         (\<forall>devId. videoOf (attempt2 devId) =
           Video \<lparr>facingModeIdeal = None, deviceIdExact = Some devId,
                  widthIdeal = Some 1280, heightIdeal = Some 720\<rparr>) \<and>
         videoOf attempt3 = VideoTrue \<and>
         (\<forall>devices. pickBestCamera devices =
            (case find (\<lambda>d. testBackRearEnvironment (label d)) devices of
               Some d \<Rightarrow> if deviceId d = [] then None else Some (deviceId d)
             | None \<Rightarrow>
                (case devices of
                   [] \<Rightarrow> None
                 | d # _ \<Rightarrow> if deviceId d = [] then None else Some (deviceId d))))"
proof -
  have req: "videoOf attempt1 =
           Video \<lparr>facingModeIdeal = Some ''environment'', deviceIdExact = None,
                  widthIdeal = Some 1280, heightIdeal = Some 720\<rparr>"
    "\<forall>devId. videoOf (attempt2 devId) =
           Video \<lparr>facingModeIdeal = None, deviceIdExact = Some devId,
                  widthIdeal = Some 1280, heightIdeal = Some 720\<rparr>"
    "videoOf attempt3 = VideoTrue"
    by (simp_all add: attempt1_def attempt2_def attempt3_def ideal_def)
  have tr: "(sent = [attempt1] \<or>
          (\<exists>devId. pickedDevice md = Some devId \<and>
             (sent = [attempt1, attempt2 devId] \<or> sent = [attempt1, attempt2 devId, attempt3])) \<or>
          (pickedDevice md = None \<and> sent = [attempt1, attempt3])) \<and>
         res = getUserMedia md (last sent) \<and>
         (\<forall>q\<in>set (butlast sent). \<exists>e. getUserMedia md q = Inl e) \<and>
         ((\<exists>e. res = Inl e) \<longrightarrow> last sent = attempt3)"
    using assms unfolding getBestVideoStream_cases
    by (auto split: sum.splits option.splits)
  show ?thesis using tr req pickBestCamera_cases by blast
qed

lemma test_labels:
  "\<not> testBackRearEnvironment ''Front Camera''" "testBackRearEnvironment ''BACK Camera''"
  "\<not> testBackRearEnvironment ''FaceTime HD Camera''"
  by code_simp+

lemma attempts_distinct: "attempt1 \<noteq> attempt2 d" "attempt3 \<noteq> attempt2 d" "attempt1 \<noteq> attempt3"
  by (simp_all add: attempt1_def attempt2_def attempt3_def ideal_def)

theorem getBestVideoStream_strategies_witness:
  "getBestVideoStream browser1 = ([attempt1, attempt2 ''back1''], Inr [7]) \<and>
   pickedDevice browser1 = Some ''back1'' \<and>
   getUserMedia browser1 attempt1 = Inl (Exn ''OverconstrainedError'' [])"
proof -
  have p: "pickedDevice browser1 = Some ''back1''"
    by (simp add: pickedDevice_def browser1_def pickBestCamera_def test_labels Let_def)
  have u: "getUserMedia browser1 attempt1 = Inl (Exn ''OverconstrainedError'' [])"
    "getUserMedia browser1 (attempt2 ''back1'') = Inr [7]"
    by (simp_all add: browser1_def attempts_distinct)
  have g: "getBestVideoStream browser1 = ([attempt1, attempt2 ''back1''], Inr [7])"
    by (simp add: getBestVideoStream_cases p u)
  from getBestVideoStream_strategies [OF g] p g u show ?thesis
    by simp
qed

text \<open>
  Claim C9, as the specification states it, fails on the selection of the second strategy:
  with one camera whose label does not match the pattern, that camera is requested by
  identity all the same.
\<close>

theorem unlabelled_camera_requested:
  "getBestVideoStream browser2 = ([attempt1, attempt2 ''abc''], Inr [7]) \<and>
   enumerateDevices browser2 =
     Inr [\<lparr>kind = ''videoinput'', label = ''FaceTime HD Camera'', deviceId = ''abc''\<rparr>] \<and>
   \<not> testBackRearEnvironment ''FaceTime HD Camera''"
proof -
  have p: "pickedDevice browser2 = Some ''abc''"
    by (simp add: pickedDevice_def browser2_def pickBestCamera_def test_labels Let_def)
  have u: "getUserMedia browser2 attempt1 = Inl (Exn ''OverconstrainedError'' [])"
    "getUserMedia browser2 (attempt2 ''abc'') = Inr [7]"
    by (simp_all add: browser2_def attempts_distinct)
  have g: "getBestVideoStream browser2 = ([attempt1, attempt2 ''abc''], Inr [7])"
    by (simp add: getBestVideoStream_cases p u)
  show ?thesis using g test_labels(3) by (simp add: browser2_def)
qed

section \<open>Properties of the scanner component\<close>

lemma suspend_fields:
  "streamRef (suspend i p s) = streamRef s" "stopRef (suspend i p s) = stopRef s"
  "lastRef (suspend i p s) = lastRef s" "unmounted (suspend i p s) = unmounted s"
  "stoppedTracks (suspend i p s) = stoppedTracks s" "drawn (suspend i p s) = drawn s"
  "decodeCalls (suspend i p s) = decodeCalls s"
  "onDetectedCalls (suspend i p s) = onDetectedCalls s" "caught (suspend i p s) = caught s"
  "starts (suspend i p s) = (starts s)[i := p]"
  by (simp_all add: suspend_def)

lemma cleanup_fields:
  "stopRef (cleanup s) = True" "streamRef (cleanup s) = streamRef s"
  "lastRef (cleanup s) = lastRef s" "unmounted (cleanup s) = unmounted s"
  "starts (cleanup s) = starts s" "drawn (cleanup s) = drawn s"
  "decodeCalls (cleanup s) = decodeCalls s" "onDetectedCalls (cleanup s) = onDetectedCalls s"
  "caught (cleanup s) = caught s"
  "stoppedTracks (cleanup s) = stoppedTracks s \<union> (case streamRef s of None \<Rightarrow> {} | Some st \<Rightarrow> set st)"
  by (simp_all add: cleanup_def Let_def split: option.splits)

lemma effectBody_fields:
  "stopRef (effectBody s) = False" "streamRef (effectBody s) = streamRef s"
  "lastRef (effectBody s) = lastRef s" "unmounted (effectBody s) = unmounted s"
  "starts (effectBody s) = starts s @ [AwaitStream]" "drawn (effectBody s) = drawn s"
  "decodeCalls (effectBody s) = decodeCalls s"
  "onDetectedCalls (effectBody s) = onDetectedCalls s" "caught (effectBody s) = caught s"
  "stoppedTracks (effectBody s) = stoppedTracks s"
  by (simp_all add: effectBody_def)

lemma gateBlock_fields:
  "stopRef (gateBlock i s raw) = stopRef s" "streamRef (gateBlock i s raw) = streamRef s"
  "unmounted (gateBlock i s raw) = unmounted s"
  "stoppedTracks (gateBlock i s raw) = stoppedTracks s" "drawn (gateBlock i s raw) = drawn s"
  "decodeCalls (gateBlock i s raw) = decodeCalls s" "caught (gateBlock i s raw) = caught s"
  "lastRef (gateBlock i s raw) = fst (gateStep (lastRef s) raw)"
  "onDetectedCalls (gateBlock i s raw) =
     onDetectedCalls s @ (case snd (gateStep (lastRef s) raw) of None \<Rightarrow> [] | Some v \<Rightarrow> [v])"
  "starts (gateBlock i s raw) =
     (starts s)[i := (case snd (gateStep (lastRef s) raw) of None \<Rightarrow> AwaitTimer
                      | Some v \<Rightarrow> Returned)]"
  by (simp_all add: gateBlock_def suspend_def split: prod.splits option.splits)

lemma suspendedAt_mem: "suspendedAt s i = Some p \<Longrightarrow> p \<in> set (starts s)"
  by (auto simp: suspendedAt_def split: if_splits)

lemma update_not_mem: "q \<notin> set xs \<Longrightarrow> p \<noteq> q \<Longrightarrow> q \<notin> set (xs[i := p])"
  using set_update_subset_insert [of xs i p] by auto

lemma reads_clean: "v \<in> set (reads es) \<Longrightarrow> v \<noteq> [] \<and> list_all isbnChar v \<and> length v \<le> 13"
proof -
  assume "v \<in> set (reads es)"
  then obtain e where "e \<in> set es" "v \<in> set (readOf e)" by (auto simp: reads_def)
  then show ?thesis
    by (cases e rule: readOf.cases) (auto dest: successes_clean)
qed

subsection \<open>The gate inside the component\<close>

lemma repeated_snoc:
  "repeated (rd @ [v]) = repeated rd @ (if rd \<noteq> [] \<and> last rd = v then [v] else [])"
  by (induction rd rule: repeated.induct) auto

lemma gateInv_mounted: "gateInv mounted []" "onDetectedCalls mounted = repeated []"
  by (simp_all add: gateInv_def mounted_def effectBody_def)

text \<open>
  The gate block keeps the invariant, and calls \<open>onDetected\<close> exactly when the string it
  has read is not empty and equals the last successful read before it.
\<close>

lemma gateBlock_gateInv:
  assumes "gateInv s rd"
  shows "gateInv (gateBlock i s raw) (rd @ successes [raw]) \<and>
         onDetectedCalls (gateBlock i s raw) =
           onDetectedCalls s @
             (if cleanISBN raw \<noteq> [] \<and> rd \<noteq> [] \<and> last rd = cleanISBN raw then [cleanISBN raw]
              else [])"
proof -
  let ?c = "cleanISBN raw"
  consider (empty) "?c = []" | (same) "?c \<noteq> []" "value' (lastRef s) = ?c"
    | (other) "?c \<noteq> []" "value' (lastRef s) \<noteq> ?c"
    by blast
  then show ?thesis
  proof cases
    case empty
    then show ?thesis using assms
      by (auto simp: gateBlock_fields gateStep_empty successes_def gateInv_def split: if_splits)
  next
    case same
    with assms have rd: "rd \<noteq> []" "last rd = ?c" "1 \<le> hits (lastRef s)"
      by (auto simp: gateInv_def initialGate_def split: if_splits)
    then show ?thesis using same
      by (simp add: gateBlock_fields gateStep_same successes_def gateInv_def)
  next
    case other
    with assms have "rd \<noteq> [] \<longrightarrow> last rd \<noteq> ?c"
      by (auto simp: gateInv_def split: if_splits)
    then show ?thesis using other
      by (auto simp: gateBlock_fields gateStep_other successes_def gateInv_def)
  qed
qed

lemma step_gateInv:
  assumes "gateInv s rd" "step native s e = Some s'"
  shows "gateInv s' (rd @ readOf e) \<and>
         onDetectedCalls s' =
           onDetectedCalls s @ filter (\<lambda>v. rd \<noteq> [] \<and> last rd = v) (readOf e)"
proof (cases e)
  case (DetectSettled i r)
  with assms(2) have s': "s' = loopResume i s r" by (simp split: if_splits)
  show ?thesis
  proof (cases r)
    case (Inl x)
    then show ?thesis using assms(1) DetectSettled s'
      by (auto simp: loopResume_def suspend_fields gateInv_def split: if_splits)
  next
    case (Inr codes)
    show ?thesis
    proof (cases codes)
      case Nil
      then show ?thesis using assms(1) DetectSettled s' Inr
        by (auto simp: loopResume_def suspend_fields gateInv_def split: if_splits)
    next
      case (Cons raw rest)
      then show ?thesis using DetectSettled s' Inr gateBlock_gateInv [OF assms(1), of i raw]
        by (auto simp: loopResume_def successes_def)
    qed
  qed
next
  case (DecodeOnceSettled i r)
  with assms(2) have s': "s' = decodeLoopResume i s r" by (simp split: if_splits)
  show ?thesis
  proof (cases r)
    case (Inl x)
    then show ?thesis using assms(1) DecodeOnceSettled s'
      by (auto simp: decodeLoopResume_def suspend_fields gateInv_def split: if_splits)
  next
    case (Inr str)
    then show ?thesis using DecodeOnceSettled s' gateBlock_gateInv [OF assms(1), of i str]
      by (auto simp: decodeLoopResume_def successes_def)
  qed
qed (use assms in \<open>auto simp: gateInv_def cleanup_fields effectBody_fields suspend_fields
      streamSettled_def playSettled_def loopTop_def decodeLoopTop_def Let_def
      split: if_splits option.splits sum.splits\<close>)

lemma readOf_short: "readOf e = [] \<or> (\<exists>v. readOf e = [v])"
  by (cases e rule: readOf.cases) (simp_all add: successes_def)

lemma step_repeated:
  assumes "gateInv s rd" "onDetectedCalls s = repeated rd" "step native s e = Some s'"
  shows "gateInv s' (rd @ readOf e) \<and> onDetectedCalls s' = repeated (rd @ readOf e)"
  using step_gateInv [OF assms(1,3)] assms(2) readOf_short [of e]
  by (auto simp: repeated_snoc)

lemma run_gateInv:
  "gateInv s rd \<Longrightarrow> onDetectedCalls s = repeated rd \<Longrightarrow> run native s es = Some s' \<Longrightarrow>
   gateInv s' (rd @ reads es) \<and> onDetectedCalls s' = repeated (rd @ reads es)"
proof (induction es arbitrary: s rd)
  case Nil
  then show ?case by (simp add: reads_def)
next
  case (Cons e es)
  from Cons.prems(3) obtain s1 where s1: "step native s e = Some s1" "run native s1 es = Some s'"
    by (auto split: option.splits)
  from step_repeated [OF Cons.prems(1,2) s1(1)]
  have "gateInv s1 (rd @ readOf e)" "onDetectedCalls s1 = repeated (rd @ readOf e)" by simp_all
  from Cons.IH [OF this s1(2)] show ?case by (simp add: reads_def)
qed

lemma reachable_gateInv:
  "run native mounted es = Some s \<Longrightarrow>
   gateInv s (reads es) \<and> onDetectedCalls s = repeated (reads es)"
  using run_gateInv [OF gateInv_mounted] by fastforce

lemma cw_1000: "cw 1000 = 800" and ch_800: "ch 800 = 240"
  using cw_exact [of 1000] ch_exact [of 800] by simp_all

lemma cleanISBN_9780131103627: "cleanISBN ''9780131103627'' = ''9780131103627''"
  by code_simp

lemmas run_eval =
  cleanup_def effectBody_def suspend_def suspendedAt_def streamSettled_def playSettled_def
  loopTop_def gateBlock_def loopResume_def decodeLoopTop_def decodeLoopResume_def mounted_def
  initialGate_def gateStep_def observe_def decodeSettled_def
  Let_def cw_1000 ch_800 cleanISBN_12345 cleanISBN_9780131103627

text \<open>
  Claim C10. Whenever the component calls \<open>onDetected v\<close> - at a turn \<open>e\<close>, after any
  sequence \<open>es\<close> of turns, with any number of runs of the effect and either loop - \<open>v\<close> is
  not empty, has at most 13 characters, all digits or \<open>X\<close>, and the two most recent
  successful decode attempts, the one of this turn and the one before it, both gave \<open>v\<close>.
  A turn calls \<open>onDetected\<close> at most once, and the calls so far are exactly the
  successful reads that repeat the read before them. The length of \<open>v\<close> need not be 10 or
  13: there is a run in which \<open>onDetected\<close> is called with \<open>12345\<close>.
\<close>

theorem onDetected_last_two_reads:
  assumes "run native mounted es = Some s" and "step native s e = Some s'"
  shows "(onDetectedCalls s' = onDetectedCalls s \<or>
          (\<exists>v pre. onDetectedCalls s' = onDetectedCalls s @ [v] \<and>
                   reads (es @ [e]) = pre @ [v, v] \<and>
                   v \<noteq> [] \<and> length v \<le> 13 \<and> list_all isbnChar v)) \<and>
         onDetectedCalls s' = repeated (reads (es @ [e])) \<and>
         (\<exists>es' t. run False mounted es' = Some t \<and> onDetectedCalls t = [''12345''])"
proof -
  from reachable_gateInv [OF assms(1)]
  have i: "gateInv s (reads es)" and c: "onDetectedCalls s = repeated (reads es)" by simp_all
  from step_gateInv [OF i assms(2)]
  have n: "onDetectedCalls s' =
           onDetectedCalls s @ filter (\<lambda>v. reads es \<noteq> [] \<and> last (reads es) = v) (readOf e)"
    by simp
  have r: "reads (es @ [e]) = reads es @ readOf e" by (simp add: reads_def)
  have a: "onDetectedCalls s' = onDetectedCalls s \<or>
          (\<exists>v pre. onDetectedCalls s' = onDetectedCalls s @ [v] \<and>
                   reads (es @ [e]) = pre @ [v, v] \<and>
                   v \<noteq> [] \<and> length v \<le> 13 \<and> list_all isbnChar v)"
  proof (cases "filter (\<lambda>v. reads es \<noteq> [] \<and> last (reads es) = v) (readOf e) = []")
    case True
    with n show ?thesis by simp
  next
    case False
    with readOf_short [of e] obtain v where v: "readOf e = [v]" "reads es \<noteq> []" "last (reads es) = v"
      by (auto split: if_splits)
    then have "reads (es @ [e]) = butlast (reads es) @ [v, v]"
      unfolding r by (metis append.assoc append_Cons append_Nil append_butlast_last_id)
    moreover have "v \<in> set (reads (es @ [e]))" unfolding r using v by simp
    then have "v \<noteq> [] \<and> list_all isbnChar v \<and> length v \<le> 13" by (rule reads_clean)
    moreover have "onDetectedCalls s' = onDetectedCalls s @ [v]" using n v by simp
    ultimately show ?thesis by blast
  qed
  have b: "onDetectedCalls s' = repeated (reads (es @ [e]))"
    using step_repeated [OF i c assms(2)] r by simp
  let ?tr = "[StreamSettled 0 (Inr [0]) True, FocusSettled 0, PlaySettled 0 None,
              LoopCalled 0 640 480, DecodeOnceSettled 0 (Inr ''12345''), LoopCalled 0 640 480,
              DecodeOnceSettled 0 (Inr ''12345'')]"
  have "\<exists>t. run False mounted ?tr = Some t \<and> onDetectedCalls t = [''12345'']"
    by (simp add: run_eval)
  then have "\<exists>es' t. run False mounted es' = Some t \<and> onDetectedCalls t = [''12345'']"
    by blast
  with a b show ?thesis by blast
qed

text \<open>
  A run of the claim with two runs of the effect. The loop of the first run has read the
  code once and has its second decode call pending when the effect runs again; the loop
  of the second run starts its own decode call. Both calls then settle with the same
  code: each of the two loops calls \<open>onDetected\<close>, the second one at the third hit.
\<close>

theorem onDetected_last_two_reads_witness:
  "run True mounted
     [StreamSettled 0 (Inr [0]) True, FocusSettled 0, PlaySettled 0 None, LoopCalled 0 1000 800,
      DetectSettled 0 (Inr [''9780131103627'']), LoopCalled 0 1000 800, EffectRerun,
      StreamSettled 1 (Inr [1]) True, FocusSettled 1, PlaySettled 1 None, LoopCalled 1 1000 800,
      DetectSettled 0 (Inr [''9780131103627''])] =
   Some \<lparr>streamRef = Some [1], stopRef = False,
         lastRef = \<lparr>value' = ''9780131103627'', hits = 2\<rparr>, unmounted = False,
         starts = [Returned, AwaitDecode], stoppedTracks = {0}, drawn = 3, decodeCalls = 3,
         onDetectedCalls = [''9780131103627''], caught = []\<rparr> \<and>
   step True
     \<lparr>streamRef = Some [1], stopRef = False,
      lastRef = \<lparr>value' = ''9780131103627'', hits = 2\<rparr>, unmounted = False,
      starts = [Returned, AwaitDecode], stoppedTracks = {0}, drawn = 3, decodeCalls = 3,
      onDetectedCalls = [''9780131103627''], caught = []\<rparr>
     (DetectSettled 1 (Inr [''9780131103627''])) =
   Some \<lparr>streamRef = Some [1], stopRef = False,
         lastRef = \<lparr>value' = ''9780131103627'', hits = 3\<rparr>, unmounted = False,
         starts = [Returned, Returned], stoppedTracks = {0}, drawn = 3, decodeCalls = 3,
         onDetectedCalls = [''9780131103627'', ''9780131103627''], caught = []\<rparr> \<and>
   repeated [''9780131103627'', ''9780131103627'', ''9780131103627''] =
     [''9780131103627'', ''9780131103627''] \<and>
   length ''9780131103627'' \<le> 13 \<and> list_all isbnChar ''9780131103627''"
proof -
  let ?es = "[StreamSettled 0 (Inr [0]) True, FocusSettled 0, PlaySettled 0 None,
      LoopCalled 0 1000 800, DetectSettled 0 (Inr [''9780131103627'']), LoopCalled 0 1000 800,
      EffectRerun, StreamSettled 1 (Inr [1]) True, FocusSettled 1, PlaySettled 1 None,
      LoopCalled 1 1000 800, DetectSettled 0 (Inr [''9780131103627''])]"
  let ?e = "DetectSettled 1 (Inr [''9780131103627''])"
  let ?s = "\<lparr>streamRef = Some [1], stopRef = False,
      lastRef = \<lparr>value' = ''9780131103627'', hits = 2\<rparr>, unmounted = False,
      starts = [Returned, AwaitDecode], stoppedTracks = {0::nat}, drawn = 3, decodeCalls = 3,
      onDetectedCalls = [''9780131103627''], caught = []\<rparr>"
  let ?s' = "\<lparr>streamRef = Some [1], stopRef = False,
      lastRef = \<lparr>value' = ''9780131103627'', hits = 3\<rparr>, unmounted = False,
      starts = [Returned, Returned], stoppedTracks = {0::nat}, drawn = 3, decodeCalls = 3,
      onDetectedCalls = [''9780131103627'', ''9780131103627''], caught = []\<rparr>"
  have r: "run True mounted ?es = Some ?s" by (simp add: run_eval)
  have st: "step True ?s ?e = Some ?s'" by (simp add: run_eval)
  have rd: "reads (?es @ [?e]) = [''9780131103627'', ''9780131103627'', ''9780131103627'']"
    by (simp add: reads_def successes_def cleanISBN_9780131103627)
  from onDetected_last_two_reads [OF r st] r st rd show ?thesis by simp
qed

subsection \<open>Cancellation\<close>

text \<open>
  The loop reads \<open>stopRef\<close> first thing in every iteration, and an iteration that finds it
  set returns at once.
\<close>

lemma loop_checks_flag_first:
  "suspendedAt s i = Some AwaitTimer \<Longrightarrow> stopRef s \<Longrightarrow>
   step native s (LoopCalled i w h) = Some (suspend i Returned s)"
  by (simp add: loopTop_def decodeLoopTop_def)

text \<open>
  The turns of \<open>start\<close> and of the loops leave the flag, the stopped tracks and the number
  of calls of \<open>start\<close> as they are; only the cleanup and the effect body change them.
\<close>

lemma step_frame:
  assumes "step native s e = Some s1" "e \<noteq> Unmount" "e \<noteq> EffectRerun"
  shows "stopRef s1 = stopRef s \<and> unmounted s1 = unmounted s \<and>
         stoppedTracks s1 = stoppedTracks s \<and> length (starts s1) = length (starts s)"
proof (cases e)
  case (DetectSettled i r)
  with assms show ?thesis
    by (auto simp: loopResume_def gateBlock_fields suspend_fields
             split: if_splits sum.splits list.splits)
next
  case (DecodeOnceSettled i r)
  with assms show ?thesis
    by (auto simp: decodeLoopResume_def gateBlock_fields suspend_fields
             split: if_splits sum.splits)
qed (use assms in \<open>auto simp: suspend_fields streamSettled_def playSettled_def loopTop_def
      decodeLoopTop_def Let_def split: if_splits option.splits sum.splits\<close>)

lemma step_tracks_mono: "step native s e = Some s1 \<Longrightarrow> stoppedTracks s \<subseteq> stoppedTracks s1"
proof (cases "e = Unmount \<or> e = EffectRerun")
  case True
  assume "step native s e = Some s1"
  with True show ?thesis
    by (auto simp: cleanup_fields effectBody_fields split: if_splits)
next
  case False
  assume "step native s e = Some s1"
  with False step_frame [of native s e s1] show ?thesis by simp
qed

lemma run_tracks_mono: "run native s es = Some s' \<Longrightarrow> stoppedTracks s \<subseteq> stoppedTracks s'"
proof (induction es arbitrary: s)
  case Nil
  then show ?case by simp
next
  case (Cons e es)
  from Cons.prems obtain s1 where s1: "step native s e = Some s1" "run native s1 es = Some s'"
    by (auto split: option.splits)
  from step_tracks_mono [OF s1(1)] Cons.IH [OF s1(2)] show ?case by auto
qed

text \<open>After the unmount the flag stays set: the effect body does not run any more.\<close>

lemma step_unmounted_stopRef:
  assumes "unmounted s \<longrightarrow> stopRef s" "step native s e = Some s1"
  shows "unmounted s1 \<longrightarrow> stopRef s1"
proof (cases "e = Unmount \<or> e = EffectRerun")
  case True
  with assms show ?thesis
    by (auto simp: cleanup_fields effectBody_fields split: if_splits)
next
  case False
  with assms step_frame [of native s e s1] show ?thesis by simp
qed

lemma run_unmounted_stopRef:
  "unmounted s \<longrightarrow> stopRef s \<Longrightarrow> run native s es = Some s' \<Longrightarrow> unmounted s' \<longrightarrow> stopRef s'"
proof (induction es arbitrary: s)
  case Nil
  then show ?case by simp
next
  case (Cons e es)
  from Cons.prems(2) obtain s1 where s1: "step native s e = Some s1" "run native s1 es = Some s'"
    by (auto split: option.splits)
  from Cons.IH [OF step_unmounted_stopRef [OF Cons.prems(1) s1(1)] s1(2)] show ?case .
qed

text \<open>
  One turn after the unmount: no frame is drawn, no decode call is issued, no track is
  stopped, no call of \<open>start\<close> is added; the stream ref changes only when a
  \<open>getBestVideoStream\<close> is still pending, and \<open>onDetected\<close> is called only when a decode
  call is still pending.
\<close>

lemma step_unmounted:
  assumes "unmounted s" "stopRef s" "step native s e = Some s1"
  shows "unmounted s1 \<and> stopRef s1 \<and> drawn s1 = drawn s \<and> decodeCalls s1 = decodeCalls s \<and>
         stoppedTracks s1 = stoppedTracks s \<and>
         (AwaitStream \<notin> set (starts s) \<longrightarrow>
            AwaitStream \<notin> set (starts s1) \<and> streamRef s1 = streamRef s) \<and>
         (AwaitDecode \<notin> set (starts s) \<longrightarrow>
            AwaitDecode \<notin> set (starts s1) \<and> onDetectedCalls s1 = onDetectedCalls s)"
proof -
  from assms have n: "e \<noteq> Unmount" "e \<noteq> EffectRerun" by auto
  note f = step_frame [OF assms(3) n]
  have r: "drawn s1 = drawn s \<and> decodeCalls s1 = decodeCalls s \<and>
         (AwaitStream \<notin> set (starts s) \<longrightarrow>
            AwaitStream \<notin> set (starts s1) \<and> streamRef s1 = streamRef s) \<and>
         (AwaitDecode \<notin> set (starts s) \<longrightarrow>
            AwaitDecode \<notin> set (starts s1) \<and> onDetectedCalls s1 = onDetectedCalls s)"
  proof (cases e)
    case (StreamSettled i r v)
    with assms(3) have a: "suspendedAt s i = Some AwaitStream" "s1 = streamSettled i s r v"
      by (simp_all split: if_splits)
    from suspendedAt_mem [OF a(1)] a(2) show ?thesis
      by (auto simp: streamSettled_def suspend_fields Let_def update_not_mem split: sum.splits)
  next
    case (FocusSettled i)
    with assms(3) have "s1 = suspend i AwaitPlay s" by (simp split: if_splits)
    then show ?thesis by (simp add: suspend_fields update_not_mem)
  next
    case (PlaySettled i r)
    with assms(3) have "s1 = playSettled i s r" by (simp split: if_splits)
    then show ?thesis
      by (auto simp: playSettled_def suspend_fields update_not_mem split: option.splits)
  next
    case (LoopCalled i w h)
    with assms(3) have "s1 = (if native then loopTop i s w h else decodeLoopTop i s)"
      by (simp split: if_splits)
    with assms(2) have "s1 = suspend i Returned s"
      by (simp add: loopTop_def decodeLoopTop_def)
    then show ?thesis by (simp add: suspend_fields update_not_mem)
  next
    case (DetectSettled i r)
    with assms(3) have a: "suspendedAt s i = Some AwaitDecode" "s1 = loopResume i s r"
      by (simp_all split: if_splits)
    from suspendedAt_mem [OF a(1)] a(2) show ?thesis
      by (auto simp: loopResume_def gateBlock_fields suspend_fields update_not_mem
               split: sum.splits list.splits option.splits)
  next
    case (DecodeOnceSettled i r)
    with assms(3) have a: "suspendedAt s i = Some AwaitDecode" "s1 = decodeLoopResume i s r"
      by (simp_all split: if_splits)
    from suspendedAt_mem [OF a(1)] a(2) show ?thesis
      by (auto simp: decodeLoopResume_def gateBlock_fields suspend_fields update_not_mem
               split: sum.splits option.splits)
  next
    case EffectRerun
    with n show ?thesis by simp
  next
    case Unmount
    with n show ?thesis by simp
  qed
  from f r assms(1,2) show ?thesis by simp
qed

lemma run_unmounted:
  "unmounted s \<Longrightarrow> stopRef s \<Longrightarrow> run native s es = Some s' \<Longrightarrow>
   unmounted s' \<and> stopRef s' \<and> drawn s' = drawn s \<and> decodeCalls s' = decodeCalls s \<and>
   stoppedTracks s' = stoppedTracks s \<and>
   (AwaitStream \<notin> set (starts s) \<longrightarrow> streamRef s' = streamRef s) \<and>
   (AwaitDecode \<notin> set (starts s) \<longrightarrow> onDetectedCalls s' = onDetectedCalls s)"
proof (induction es arbitrary: s)
  case Nil
  then show ?case by simp
next
  case (Cons e es)
  from Cons.prems(3) obtain s1 where s1: "step native s e = Some s1" "run native s1 es = Some s'"
    by (auto split: option.splits)
  note a = step_unmounted [OF Cons.prems(1,2) s1(1)]
  from a have u: "unmounted s1" "stopRef s1" by simp_all
  from a Cons.IH [OF u s1(2)] show ?case by auto
qed

text \<open>
  What the flag does achieve: once the component is unmounted no frame is drawn and no
  decode call is issued any more, whatever follows.
\<close>

lemma no_capture_after_unmount:
  assumes "run native mounted es = Some s" "unmounted s" "run native s post = Some s'"
  shows "stopRef s' \<and> drawn s' = drawn s \<and> decodeCalls s' = decodeCalls s \<and>
         (AwaitDecode \<notin> set (starts s) \<longrightarrow> onDetectedCalls s' = onDetectedCalls s)"
proof -
  have "unmounted mounted \<longrightarrow> stopRef mounted" by (simp add: mounted_def effectBody_def)
  from run_unmounted_stopRef [OF this assms(1)] assms(2) have "stopRef s" by simp
  from run_unmounted [OF assms(2) this assms(3)] show ?thesis by simp
qed

text \<open>
  Claim C4: once the flag is set, the loop performs no further frame capture or decode
  attempt and \<open>onDetected\<close> is never called afterward. The code does not achieve this:
  the flag is read at the top of an iteration only, not after the \<open>await\<close> of the
  decode call. In every state the component can reach in which the flag is set while a
  decode call is pending (of either loop, of any call of \<open>start\<close>), when that call settles
  with the code that was read last, its result goes through the gate and \<open>onDetected\<close> is
  called, the flag still set.
\<close>

theorem pending_decode_ignores_cancel:
  assumes "run native mounted es = Some s" and "stopRef s"
    and "suspendedAt s i = Some AwaitDecode"
    and "reads es \<noteq> []" and "cleanISBN raw = last (reads es)"
  shows "\<exists>s'. step native s (decodeSettled native i raw) = Some s' \<and> stopRef s' \<and>
              onDetectedCalls s' = onDetectedCalls s @ [cleanISBN raw] \<and>
              suspendedAt s' i = Some Returned"
proof -
  from reachable_gateInv [OF assms(1)] assms(4,5)
  have g: "value' (lastRef s) = cleanISBN raw" "1 \<le> hits (lastRef s)"
    by (simp_all add: gateInv_def)
  from assms(4,5) have "cleanISBN raw \<in> set (reads es)" by simp
  then have c: "cleanISBN raw \<noteq> []" using reads_clean by blast
  from assms(3) have i: "i < length (starts s)"
    by (simp add: suspendedAt_def split: if_splits)
  have st: "step native s (decodeSettled native i raw) = Some (gateBlock i s raw)"
    using assms(3) by (simp add: decodeSettled_def loopResume_def decodeLoopResume_def)
  have "stopRef (gateBlock i s raw)" using assms(2) by (simp add: gateBlock_fields)
  moreover have "onDetectedCalls (gateBlock i s raw) = onDetectedCalls s @ [cleanISBN raw]"
    using g c by (simp add: gateBlock_fields gateStep_same)
  moreover have "suspendedAt (gateBlock i s raw) i = Some Returned"
    using g c i by (simp add: suspendedAt_def gateBlock_fields gateStep_same)
  ultimately show ?thesis using st by blast
qed

text \<open>
  The scanner reads a code once and starts its second decode call; the component is
  unmounted while that call is pending; the call settles with the same code.
\<close>

theorem pending_decode_ignores_cancel_witness:
  "run True mounted
     [StreamSettled 0 (Inr [0]) True, FocusSettled 0, PlaySettled 0 None, LoopCalled 0 1000 800,
      DetectSettled 0 (Inr [''9780131103627'']), LoopCalled 0 1000 800, Unmount] =
   Some \<lparr>streamRef = Some [0], stopRef = True,
         lastRef = \<lparr>value' = ''9780131103627'', hits = 1\<rparr>, unmounted = True,
         starts = [AwaitDecode], stoppedTracks = {0}, drawn = 2, decodeCalls = 2,
         onDetectedCalls = [], caught = []\<rparr> \<and>
   step True
     \<lparr>streamRef = Some [0], stopRef = True,
      lastRef = \<lparr>value' = ''9780131103627'', hits = 1\<rparr>, unmounted = True,
      starts = [AwaitDecode], stoppedTracks = {0}, drawn = 2, decodeCalls = 2,
      onDetectedCalls = [], caught = []\<rparr>
     (DetectSettled 0 (Inr [''9780131103627''])) =
   Some \<lparr>streamRef = Some [0], stopRef = True,
         lastRef = \<lparr>value' = ''9780131103627'', hits = 2\<rparr>, unmounted = True,
         starts = [Returned], stoppedTracks = {0}, drawn = 2, decodeCalls = 2,
         onDetectedCalls = [''9780131103627''], caught = []\<rparr>"
proof -
  let ?es = "[StreamSettled 0 (Inr [0]) True, FocusSettled 0, PlaySettled 0 None,
      LoopCalled 0 1000 800, DetectSettled 0 (Inr [''9780131103627'']), LoopCalled 0 1000 800,
      Unmount]"
  let ?s = "\<lparr>streamRef = Some [0], stopRef = True,
      lastRef = \<lparr>value' = ''9780131103627'', hits = 1\<rparr>, unmounted = True,
      starts = [AwaitDecode], stoppedTracks = {0::nat}, drawn = 2, decodeCalls = 2,
      onDetectedCalls = [], caught = []\<rparr>"
  have r: "run True mounted ?es = Some ?s" by (simp add: run_eval)
  have f: "stopRef ?s" by simp
  have p: "suspendedAt ?s 0 = Some AwaitDecode" by (simp add: suspendedAt_def)
  have rd: "reads ?es = [''9780131103627'']"
    by (simp add: reads_def successes_def cleanISBN_9780131103627)
  then have n: "reads ?es \<noteq> []" by simp
  have c: "cleanISBN ''9780131103627'' = last (reads ?es)"
    by (simp add: rd cleanISBN_9780131103627)
  from pending_decode_ignores_cancel [OF r f p n c] r show ?thesis
    by (simp add: run_eval)
qed

text \<open>
  A second way past the flag: a run of the effect. Its cleanup sets the flag and its body
  clears it again in the same turn, so a loop of an earlier run that waits for its timer
  never sees the flag set: it goes on capturing, beside the loop of the new run.
\<close>

lemma loop_survives_rerun:
  assumes "suspendedAt s i = Some AwaitTimer" "\<not> unmounted s"
    and "native \<longrightarrow> w \<noteq> 0 \<and> h \<noteq> 0 \<and> cw w \<noteq> 0 \<and> ch h \<noteq> 0"
  shows "\<exists>t. run native s [EffectRerun, LoopCalled i w h] = Some t \<and> \<not> stopRef t \<and>
             decodeCalls t = decodeCalls s + 1 \<and> suspendedAt t i = Some AwaitDecode \<and>
             (native \<longrightarrow> drawn t = drawn s + 1)"
proof -
  from assms(1) have i: "i < length (starts s)" "starts s ! i = AwaitTimer"
    by (simp_all add: suspendedAt_def split: if_splits)
  let ?u = "effectBody (cleanup s)"
  have u: "suspendedAt ?u i = Some AwaitTimer" "\<not> stopRef ?u"
    "decodeCalls ?u = decodeCalls s" "drawn ?u = drawn s"
    using i by (simp_all add: suspendedAt_def effectBody_fields cleanup_fields nth_append)
  have l: "i < length (starts ?u)"
    using i by (simp add: effectBody_fields cleanup_fields)
  show ?thesis
  proof (cases native)
    case True
    with assms(3) have d: "w \<noteq> 0" "h \<noteq> 0" "cw w \<noteq> 0" "ch h \<noteq> 0" by simp_all
    have "run native s [EffectRerun, LoopCalled i w h] = Some (loopTop i ?u w h)"
      using assms(2) u(1) True by simp
    moreover have "\<not> stopRef (loopTop i ?u w h)" "decodeCalls (loopTop i ?u w h) = decodeCalls s + 1"
      "drawn (loopTop i ?u w h) = drawn s + 1" "suspendedAt (loopTop i ?u w h) i = Some AwaitDecode"
      using u d l by (simp_all add: loopTop_def Let_def suspend_def suspendedAt_def)
    ultimately show ?thesis by simp
  next
    case False
    have "run native s [EffectRerun, LoopCalled i w h] = Some (decodeLoopTop i ?u)"
      using assms(2) u(1) False by simp
    moreover have "\<not> stopRef (decodeLoopTop i ?u)" "decodeCalls (decodeLoopTop i ?u) = decodeCalls s + 1"
      "suspendedAt (decodeLoopTop i ?u) i = Some AwaitDecode"
      using u l by (simp_all add: decodeLoopTop_def suspend_def suspendedAt_def)
    ultimately show ?thesis using False by simp
  qed
qed

text \<open>
  The flag is set after the first decode attempt and before the second, by a run of the
  effect: the first loop issues its second capture all the same.
\<close>

lemma second_capture_after_rerun:
  "run True mounted
     [StreamSettled 0 (Inr [0]) True, FocusSettled 0, PlaySettled 0 None, LoopCalled 0 1000 800,
      DetectSettled 0 (Inr [''9780131103627'']), EffectRerun, LoopCalled 0 1000 800] =
   Some \<lparr>streamRef = Some [0], stopRef = False,
         lastRef = \<lparr>value' = ''9780131103627'', hits = 1\<rparr>, unmounted = False,
         starts = [AwaitDecode, AwaitStream], stoppedTracks = {0}, drawn = 2, decodeCalls = 2,
         onDetectedCalls = [], caught = []\<rparr>"
  by (simp add: run_eval)

subsection \<open>Release of the camera\<close>

lemma cleanup_idem: "cleanup (cleanup t) = cleanup t"
  by (cases "streamRef t") (simp_all add: cleanup_def Let_def)

text \<open>
  What the cleanup does achieve. Whatever the component has done before (loop running,
  detection confirmed, \<open>play\<close> rejected), a cleanup, at the unmount or before another run of
  the effect, stops all tracks of the stream that is stored in \<open>streamRef\<close> at that moment,
  and they stay stopped whatever follows. The cleanup is idempotent, and when no stream is
  stored it only sets the flag.
\<close>

lemma cleanup_stops_stored_stream:
  assumes "streamRef s = Some st" and "e = Unmount \<or> e = EffectRerun"
    and "run native s (e # post) = Some s'"
  shows "set st \<subseteq> stoppedTracks s' \<and> cleanup (cleanup t) = cleanup t \<and>
         (streamRef t = None \<longrightarrow> cleanup t = t\<lparr>stopRef := True\<rparr>)"
proof -
  from assms(3) obtain s1 where s1: "step native s e = Some s1" "run native s1 post = Some s'"
    by (auto split: option.splits)
  from s1(1) assms(1,2) have "set st \<subseteq> stoppedTracks s1"
    by (auto simp: cleanup_fields effectBody_fields split: if_splits)
  with run_tracks_mono [OF s1(2)] have "set st \<subseteq> stoppedTracks s'" by blast
  moreover have "streamRef t = None \<longrightarrow> cleanup t = t\<lparr>stopRef := True\<rparr>"
    by (simp add: cleanup_def Let_def)
  ultimately show ?thesis by (simp add: cleanup_idem)
qed

text \<open>
  A confirmed detection, then the unmount: both tracks are stopped. And a session that
  ends with a rejected \<open>play\<close>: the stream stays live until the cleanup runs.
\<close>

lemma cleanup_after_detection:
  "run True mounted
     [StreamSettled 0 (Inr [0, 1]) True, FocusSettled 0, PlaySettled 0 None,
      LoopCalled 0 1000 800, DetectSettled 0 (Inr [''9780131103627'']), LoopCalled 0 1000 800,
      DetectSettled 0 (Inr [''9780131103627'']), Unmount] =
   Some \<lparr>streamRef = Some [0, 1], stopRef = True,
         lastRef = \<lparr>value' = ''9780131103627'', hits = 2\<rparr>, unmounted = True,
         starts = [Returned], stoppedTracks = {0, 1}, drawn = 2, decodeCalls = 2,
         onDetectedCalls = [''9780131103627''], caught = []\<rparr>"
  by (simp add: run_eval insert_commute)

lemma stream_live_after_play_rejected:
  "run True mounted
     [StreamSettled 0 (Inr [0]) True, FocusSettled 0,
      PlaySettled 0 (Some (Exn ''NotAllowedError'' ''play''))] =
   Some \<lparr>streamRef = Some [0], stopRef = False, lastRef = initialGate, unmounted = False,
         starts = [Returned], stoppedTracks = {}, drawn = 0, decodeCalls = 0,
         onDetectedCalls = [], caught = [Exn ''NotAllowedError'' ''play'']\<rparr>"
  by (simp add: streamSettled_def playSettled_def mounted_def effectBody_def suspend_def
      suspendedAt_def Let_def)

text \<open>
  A stream is lost in the same way when the effect runs again while
  \<open>getBestVideoStream\<close> is pending: both calls of \<open>start\<close> store their stream in
  \<open>streamRef\<close>, the second over the first, and the cleanup at the unmount stops the
  tracks of the second only.
\<close>

lemma stream_live_after_rerun:
  "run True mounted
     [EffectRerun, StreamSettled 0 (Inr [0]) True, StreamSettled 1 (Inr [1]) True, Unmount] =
   Some \<lparr>streamRef = Some [1], stopRef = True, lastRef = initialGate, unmounted = True,
         starts = [AwaitFocus, AwaitFocus], stoppedTracks = {1}, drawn = 0, decodeCalls = 0,
         onDetectedCalls = [], caught = []\<rparr>"
  by (simp add: run_eval)

text \<open>
  Claim C3: on every termination path of a session all tracks of the acquired stream are
  stopped by the teardown. The code does not achieve this on the unmount path when the
  cleanup runs while \<open>getBestVideoStream\<close> is pending. The cleanup then finds
  \<open>streamRef.current\<close> empty and stops nothing; when the stream arrives, \<open>start\<close> stores it
  and goes on (it returns at once at \<open>if (!video) return\<close> when the video element is gone,
  and otherwise its loop returns at its first check of the flag). No track of that stream
  is stopped then or later, whatever follows: after the unmount the cleanup does not run
  again.
\<close>

theorem stream_leaks_when_cleanup_precedes_acquisition:
  assumes "run native mounted (Unmount # StreamSettled 0 (Inr st) videoAttached # post) = Some s'"
  shows "stopRef s' \<and> streamRef s' = Some st \<and> stoppedTracks s' = {} \<and>
         drawn s' = 0 \<and> decodeCalls s' = 0"
proof -
  define s2 where "s2 = streamSettled 0 ((cleanup mounted)\<lparr>unmounted := True\<rparr>) (Inr st) videoAttached"
  have f: "stopRef s2" "streamRef s2 = Some st" "stoppedTracks s2 = {}"
    "AwaitStream \<notin> set (starts s2)" "drawn s2 = 0" "decodeCalls s2 = 0" "unmounted s2"
    by (simp_all add: s2_def streamSettled_def cleanup_def mounted_def effectBody_def
        suspend_def Let_def)
  have r: "run native s2 post = Some s'"
    using assms by (simp add: s2_def cleanup_fields mounted_def effectBody_def suspendedAt_def)
  from run_unmounted [OF f(7) f(1) r] f show ?thesis by simp
qed

theorem stream_leaks_when_cleanup_precedes_acquisition_witness:
  "run True mounted [Unmount, StreamSettled 0 (Inr [0]) False] =
   Some \<lparr>streamRef = Some [0], stopRef = True, lastRef = initialGate, unmounted = True,
         starts = [Returned], stoppedTracks = {}, drawn = 0, decodeCalls = 0,
         onDetectedCalls = [], caught = []\<rparr>"
proof -
  have a: "run True mounted (Unmount # StreamSettled 0 (Inr [0]) False # []) =
   Some \<lparr>streamRef = Some [0], stopRef = True, lastRef = initialGate, unmounted = True,
         starts = [Returned], stoppedTracks = {}, drawn = 0, decodeCalls = 0,
         onDetectedCalls = [], caught = []\<rparr>"
    by (simp add: cleanup_def streamSettled_def mounted_def effectBody_def suspend_def
        suspendedAt_def Let_def)
  from stream_leaks_when_cleanup_precedes_acquisition [OF a] a show ?thesis by simp
qed

text \<open>
  Claim C1, as the specification states it, fails: \<open>12345\<close> is not a valid ISBN for
  \<open>isValidISBN\<close>, and the gate confirms it at its second observation; the component then
  calls \<open>onDetected\<close> with it.
\<close>

theorem invalid_length_confirmed:
  "\<not> isValidISBN ''12345'' \<and>
   feed initialGate [''12345'', ''12345''] = (\<lparr>value' = ''12345'', hits = 2\<rparr>, Some ''12345'') \<and>
   map_option onDetectedCalls
     (run False mounted
        [StreamSettled 0 (Inr [0]) True, FocusSettled 0, PlaySettled 0 None,
         LoopCalled 0 640 480, DecodeOnceSettled 0 (Inr ''12345''), LoopCalled 0 640 480,
         DecodeOnceSettled 0 (Inr ''12345'')]) =
   Some [''12345'']"
  by (simp add: run_eval isValidISBN_def)

end
